theory Spec2Isabelle
  imports Complex_Main "HOL-Library.Word" "HOL-Library.Signed_Division"
begin

section \<open>Data model of \<open>analytics/service.go\<close>\<close>

text \<open>
  Go's \<open>int64\<close> is a 64-bit two's complement word; Go's \<open>int\<close> is taken at its
  width on 64-bit platforms, which is 64 bits as well. Arithmetic wraps around, comparisons
  and division are the signed ones. Go strings are byte sequences, as \<open>string\<close> is here.
\<close>

type_synonym int64 = "64 word"
type_synonym goint = "64 word"

record LogEntry =
  Timestamp :: string
  Level :: string
  Message :: string
  Path :: string
  Method :: string
  Duration :: int64
  Status :: goint
  Metadata :: "string \<rightharpoonup> string"

text \<open>
  The anonymous struct of \<open>AnalyzeLogs\<close> has the fields \<open>count\<close>, \<open>totalTime\<close> and
  \<open>errors\<close>; the one of \<open>AnalyzePerformance\<close> has the same three and \<open>maxTime\<close>,
  \<open>minTime\<close> in addition, so it is the record extension.
\<close>

record logStats =
  count :: goint
  totalTime :: int64
  errors :: goint

record perfStats = logStats +
  maxTime :: int64
  minTime :: int64

text \<open>The zero values that a Go map lookup yields for an absent key.\<close>

definition zeroLogStats :: logStats where
  "zeroLogStats = \<lparr>count = 0, totalTime = 0, errors = 0\<rparr>"

definition zeroPerfStats :: perfStats where
  "zeroPerfStats = \<lparr>count = 0, totalTime = 0, errors = 0, maxTime = 0, minTime = 0\<rparr>"

definition index_or :: "'v \<Rightarrow> (string \<rightharpoonup> 'v) \<Rightarrow> string \<Rightarrow> 'v" where
  "index_or zero m k = (case m k of None \<Rightarrow> zero | Some v \<Rightarrow> v)"

section \<open>Decimal rendering (\<open>%d\<close>, \<open>strconv.FormatInt\<close>, \<open>strconv.Itoa\<close>)\<close>

definition digit_char :: "nat \<Rightarrow> char" where
  "digit_char d = ''0123456789'' ! d"

fun digits :: "nat \<Rightarrow> string" where
  "digits n = (if n < 10 then [digit_char n] else digits (n div 10) @ [digit_char (n mod 10)])"

declare digits.simps [simp del]

definition FormatInt :: "int \<Rightarrow> string" where
  "FormatInt i = (if i < 0 then CHR ''-'' # digits (nat (- i)) else digits (nat i))"

definition FormatInt64 :: "int64 \<Rightarrow> string" where
  "FormatInt64 w = FormatInt (sint w)"

text \<open>The number that a string of decimal digits denotes.\<close>

definition decimal_value :: "string \<Rightarrow> nat" where
  "decimal_value s = foldl (\<lambda>a c. 10 * a + (of_char c - 48)) 0 s"

section \<open>The aggregation loops\<close>

text \<open>
  \<open>AnalyzeLogs\<close>, lines 114 to 128: the loop body updates the statistics of the entry's
  path and appends a line to the summary for an important event.
\<close>

definition important :: "LogEntry \<Rightarrow> bool" where
  "important entry \<longleftrightarrow>
     400 \<le>s Status entry \<or> Level entry = ''error'' \<or> Level entry = ''warning'' \<or> 1000 <s Duration entry"

definition event_line :: "LogEntry \<Rightarrow> string" where
  "event_line entry =
     ''- '' @ Timestamp entry @ '' ['' @ Level entry @ ''] '' @ Path entry @
     '' (Duration: '' @ FormatInt64 (Duration entry) @ ''ms, Status: '' @
     FormatInt64 (Status entry) @ '')'' @ [CHR 0x0A]"

definition logs_update :: "logStats \<Rightarrow> LogEntry \<Rightarrow> logStats" where
  "logs_update stats entry =
     (let stats = stats\<lparr>count := count stats + 1\<rparr>;
          stats = stats\<lparr>totalTime := totalTime stats + Duration entry\<rparr>;
          stats = (if 400 \<le>s Status entry then stats\<lparr>errors := errors stats + 1\<rparr> else stats)
      in stats)"

definition logs_body ::
  "(string \<rightharpoonup> logStats) \<times> string \<Rightarrow> LogEntry \<Rightarrow> (string \<rightharpoonup> logStats) \<times> string" where
  "logs_body st entry =
     (let pathStats = fst st; summary = snd st;
          stats = logs_update (index_or zeroLogStats pathStats (Path entry)) entry;
          pathStats = pathStats(Path entry \<mapsto> stats);
          summary = (if important entry then summary @ event_line entry else summary)
      in (pathStats, summary))"

fun logs_loop ::
  "(string \<rightharpoonup> logStats) \<times> string \<Rightarrow> LogEntry list \<Rightarrow> (string \<rightharpoonup> logStats) \<times> string" where
  "logs_loop st [] = st"
| "logs_loop st (entry # logs) = logs_loop (logs_body st entry) logs"

definition AnalyzeLogs_loop :: "LogEntry list \<Rightarrow> (string \<rightharpoonup> logStats) \<times> string" where
  "AnalyzeLogs_loop logs = logs_loop (Map.empty, ''Log Summary:'' @ [CHR 0x0A, CHR 0x0A]) logs"

text \<open>\<open>AnalyzePerformance\<close>, lines 179 to 198.\<close>

definition perf_update :: "perfStats \<Rightarrow> LogEntry \<Rightarrow> perfStats" where
  "perf_update stats entry =
     (let stats =
            (if count stats = 0
             then stats\<lparr>minTime := Duration entry, maxTime := Duration entry\<rparr>
             else
               (let stats = (if Duration entry <s minTime stats
                             then stats\<lparr>minTime := Duration entry\<rparr> else stats);
                    stats = (if maxTime stats <s Duration entry
                             then stats\<lparr>maxTime := Duration entry\<rparr> else stats)
                in stats));
          stats = stats\<lparr>count := count stats + 1\<rparr>;
          stats = stats\<lparr>totalTime := totalTime stats + Duration entry\<rparr>;
          stats = (if 400 \<le>s Status entry then stats\<lparr>errors := errors stats + 1\<rparr> else stats)
      in stats)"

definition perf_body :: "(string \<rightharpoonup> perfStats) \<Rightarrow> LogEntry \<Rightarrow> (string \<rightharpoonup> perfStats)" where
  "perf_body pathStats entry =
     pathStats(Path entry \<mapsto> perf_update (index_or zeroPerfStats pathStats (Path entry)) entry)"

fun perf_loop :: "(string \<rightharpoonup> perfStats) \<Rightarrow> LogEntry list \<Rightarrow> (string \<rightharpoonup> perfStats)" where
  "perf_loop pathStats [] = pathStats"
| "perf_loop pathStats (entry # logs) = perf_loop (perf_body pathStats entry) logs"

definition AnalyzePerformance_loop :: "LogEntry list \<Rightarrow> (string \<rightharpoonup> perfStats)" where
  "AnalyzePerformance_loop logs = perf_loop Map.empty logs"

text \<open>
  A Go slice has a length of type \<open>int\<close>, hence below \<open>2 ^ 63\<close>; HOL lists have no bound,
  so the bound is stated where a list stands for a slice.
\<close>

definition is_slice :: "'a list \<Rightarrow> bool" where
  "is_slice xs \<longleftrightarrow> length xs < 2 ^ 63"

text \<open>
  \<open>stats.totalTime / int64(stats.count)\<close>: Go's integer division truncates towards zero,
  wraps for the most negative value divided by \<open>-1\<close>, and panics on a zero divisor
  (\<open>None\<close>).
\<close>

definition div_int64 :: "int64 \<Rightarrow> int64 \<Rightarrow> int64 option" where
  "div_int64 a b = (if b = 0 then None else Some (word_of_int (sint a sdiv sint b)))"

definition avgTime :: "'a logStats_scheme \<Rightarrow> int64 option" where
  "avgTime stats = div_int64 (totalTime stats) (count stats)"

section \<open>\<open>float64\<close> and the \<open>%.1f\<close> verb\<close>

text \<open>
  A \<open>float64\<close> is a rational number on the binary64 grid, an infinity or NaN; the sign of
  zero is not modelled. Every operation is the exact operation followed by rounding to the
  nearest representable value, ties to even (\<open>round_float64\<close>): 53 significant bits, the
  exponent of the unit in the last place not below \<open>-1074\<close>, overflow to infinity from
  \<open>2 ^ 1024\<close> on. \<open>ilog2 x\<close> is the exponent of the leading bit of a positive \<open>x\<close>.
\<close>

datatype float64 = Finite rat | PosInf | NegInf | NaN

function bit_length :: "int \<Rightarrow> int" where
  "bit_length n = (if n \<le> 0 then 0 else 1 + bit_length (n div 2))"
  by pat_completeness auto
termination
  by (relation "measure nat") auto

declare bit_length.simps [simp del]

definition ilog2 :: "rat \<Rightarrow> int" where
  "ilog2 x =
     (if 1 \<le> x then bit_length \<lfloor>x\<rfloor> - 1 else - bit_length (\<lceil>1 / x\<rceil> - 1))"

definition round_half_even :: "rat \<Rightarrow> int" where
  "round_half_even x =
     (let f = \<lfloor>x\<rfloor>; d = x - of_int f
      in if d < 1 / 2 then f else if 1 / 2 < d then f + 1 else if even f then f else f + 1)"

definition round_float64 :: "rat \<Rightarrow> float64" where
  "round_float64 x =
     (if x = 0 then Finite 0
      else (let e = max (ilog2 \<bar>x\<bar>) (- 1022);
                ulp = 2 powi (e - 52);
                r = of_int (round_half_even (x / ulp)) * ulp
            in if 2 powi 1024 \<le> r then PosInf
               else if r \<le> - (2 powi 1024) then NegInf
               else Finite r))"

definition float64_of_int :: "int \<Rightarrow> float64" where
  "float64_of_int i = round_float64 (of_int i)"

fun float64_div :: "float64 \<Rightarrow> float64 \<Rightarrow> float64" where
  "float64_div (Finite a) (Finite b) =
     (if b = 0 then (if a = 0 then NaN else if 0 < a then PosInf else NegInf)
      else round_float64 (a / b))"
| "float64_div NaN y = NaN"
| "float64_div x NaN = NaN"
| "float64_div (Finite a) y = Finite 0"
| "float64_div PosInf (Finite b) = (if 0 \<le> b then PosInf else NegInf)"
| "float64_div NegInf (Finite b) = (if 0 \<le> b then NegInf else PosInf)"
| "float64_div x y = NaN"

fun float64_mul :: "float64 \<Rightarrow> float64 \<Rightarrow> float64" where
  "float64_mul (Finite a) (Finite b) = round_float64 (a * b)"
| "float64_mul NaN y = NaN"
| "float64_mul x NaN = NaN"
| "float64_mul (Finite a) PosInf = (if a = 0 then NaN else if 0 < a then PosInf else NegInf)"
| "float64_mul (Finite a) NegInf = (if a = 0 then NaN else if 0 < a then NegInf else PosInf)"
| "float64_mul PosInf (Finite b) = (if b = 0 then NaN else if 0 < b then PosInf else NegInf)"
| "float64_mul NegInf (Finite b) = (if b = 0 then NaN else if 0 < b then NegInf else PosInf)"
| "float64_mul PosInf PosInf = PosInf"
| "float64_mul NegInf NegInf = PosInf"
| "float64_mul PosInf NegInf = NegInf"
| "float64_mul NegInf PosInf = NegInf"

text \<open>
  \<open>fmt.Sprintf("%.1f", x)\<close>: the exact value rounded to one decimal, ties to even, the
  sign first.
\<close>

definition format_f1 :: "float64 \<Rightarrow> string" where
  "format_f1 x =
     (case x of
        Finite q \<Rightarrow>
          (let n = round_half_even (\<bar>q\<bar> * 10)
           in (if q < 0 then ''-'' else '''') @ digits (nat (n div 10)) @ ''.'' @
              [digit_char (nat (n mod 10))])
      | PosInf \<Rightarrow> ''+Inf''
      | NegInf \<Rightarrow> ''-Inf''
      | NaN \<Rightarrow> ''NaN'')"

text \<open>
  \<open>float64(stats.errors) / float64(stats.count) * 100\<close>, the same expression at lines 134
  and 203.
\<close>

definition errorRate :: "'a logStats_scheme \<Rightarrow> float64" where
  "errorRate stats =
     float64_mul (float64_div (float64_of_int (sint (errors stats)))
                              (float64_of_int (sint (count stats)))) (Finite 100)"

text \<open>
  The bodies of the two rendering loops, lines 133 to 136 and 202 to 209: the text appended
  to the summary for one path of the map. The integer division panics (\<open>None\<close>) on a zero
  count. Go leaves the order in which \<open>range\<close> visits the paths unspecified.
\<close>

definition logs_stats_line :: "string \<Rightarrow> logStats \<Rightarrow> string option" where
  "logs_stats_line path stats =
     (case avgTime stats of
        None \<Rightarrow> None
      | Some avg \<Rightarrow>
          Some (''- '' @ path @ '': '' @ FormatInt64 (count stats) @ '' requests, avg time '' @
                FormatInt64 avg @ ''ms, error rate '' @ format_f1 (errorRate stats) @
                ''%'' @ [CHR 0x0A]))"

definition perf_stats_block :: "string \<Rightarrow> perfStats \<Rightarrow> string option" where
  "perf_stats_block path stats =
     (case avgTime stats of
        None \<Rightarrow> None
      | Some avg \<Rightarrow>
          Some (''Endpoint: '' @ path @ [CHR 0x0A] @
                ''- Requests: '' @ FormatInt64 (count stats) @ [CHR 0x0A] @
                ''- Avg Time: '' @ FormatInt64 avg @ ''ms'' @ [CHR 0x0A] @
                ''- Min Time: '' @ FormatInt64 (minTime stats) @ ''ms'' @ [CHR 0x0A] @
                ''- Max Time: '' @ FormatInt64 (maxTime stats) @ ''ms'' @ [CHR 0x0A] @
                ''- Error Rate: '' @ format_f1 (errorRate stats) @ ''%'' @ [CHR 0x0A, CHR 0x0A]))"

section \<open>The response normalizer, \<open>cleanJSONResponse\<close>\<close>

text \<open>
  \<open>strings.ReplaceAll\<close>: the non-overlapping instances of \<open>old\<close>, found from left to
  right, are replaced by \<open>new\<close>. The source calls it with a non-empty \<open>old\<close> only; for an
  empty \<open>old\<close>, where Go inserts \<open>new\<close> around every UTF-8 sequence, this model returns the
  string unchanged.
\<close>

function ReplaceAll :: "string \<Rightarrow> string \<Rightarrow> string \<Rightarrow> string" where
  "ReplaceAll [] old new = []"
| "ReplaceAll (c # s) old new =
     (if old \<noteq> [] \<and> take (length old) (c # s) = old
      then new @ ReplaceAll (drop (length old) (c # s)) old new
      else c # ReplaceAll s old new)"
  by pat_completeness auto
termination
  by (relation "measure (\<lambda>(s, old, new). length s)") auto

text \<open>
  \<open>strings.Index\<close> and \<open>strings.LastIndex\<close>: the index of the first and of the last
  instance of \<open>substr\<close>, or \<open>-1\<close>. Indices are at most the length of the string, which a
  Go \<open>int\<close> holds, so they are modelled by \<open>int\<close>.
\<close>

fun Index :: "string \<Rightarrow> string \<Rightarrow> int" where
  "Index [] substr = (if substr = [] then 0 else - 1)"
| "Index (c # s) substr =
     (if take (length substr) (c # s) = substr then 0
      else (let i = Index s substr in if i < 0 then - 1 else i + 1))"

fun LastIndex :: "string \<Rightarrow> string \<Rightarrow> int" where
  "LastIndex [] substr = (if substr = [] then 0 else - 1)"
| "LastIndex (c # s) substr =
     (let i = LastIndex s substr
      in if 0 \<le> i then i + 1
         else if take (length substr) (c # s) = substr then 0 else - 1)"

text \<open>
  The slice expression \<open>s[lo:hi]\<close>: Go panics (\<open>None\<close>) unless \<open>0 \<le> lo \<le> hi \<le> len(s)\<close>.
\<close>

definition slice_str :: "string \<Rightarrow> int \<Rightarrow> int \<Rightarrow> string option" where
  "slice_str s lo hi =
     (if 0 \<le> lo \<and> lo \<le> hi \<and> hi \<le> int (length s)
      then Some (take (nat (hi - lo)) (drop (nat lo) s)) else None)"

text \<open>Lines 85 to 100. The variable \<open>end\<close> of the source is \<open>end'\<close> here.\<close>

definition cleanJSONResponse :: "string \<Rightarrow> string option" where
  "cleanJSONResponse response =
     (let response = ReplaceAll response ''`'' '''';
          response = ReplaceAll response ''```json'' '''';
          response = ReplaceAll response ''```'' '''';
          start = Index response ''{'';
          end' = LastIndex response ''}''
      in if 0 \<le> start \<and> start < end' then slice_str response start (end' + 1)
         else Some response)"

text \<open>
  The normalizer in the specification's words: remove every backtick; then, if the cleaned
  text has a \<open>{\<close> and a \<open>}\<close> after the first \<open>{\<close>, take the inclusive substring from the
  first \<open>{\<close> to the last \<open>}\<close>, else the whole cleaned text.
\<close>

definition strip_backticks :: "string \<Rightarrow> string" where
  "strip_backticks s = filter (\<lambda>c. c \<noteq> CHR ''`'') s"

definition clean_spec :: "string \<Rightarrow> string" where
  "clean_spec s =
     (let cleaned = strip_backticks s;
          from_brace = dropWhile (\<lambda>c. c \<noteq> CHR ''{'') cleaned
      in if from_brace \<noteq> [] \<and> CHR ''}'' \<in> set (tl from_brace)
         then rev (dropWhile (\<lambda>c. c \<noteq> CHR ''}'') (rev from_brace))
         else cleaned)"

section \<open>The CSV exporter\<close>

text \<open>
  \<open>ConvertToCSV\<close> writes through \<open>encoding/csv\<close>, whose \<open>Writer\<close> wraps a
  \<open>bufio.Writer\<close> around the \<open>bytes.Buffer\<close>. The two errors these layers can produce by
  themselves are the invalid delimiter of \<open>csv\<close> and the short write of \<open>bufio\<close>.
\<close>

datatype error = ErrInvalidDelim | ErrShortWrite

fun error_text :: "error \<Rightarrow> string" where
  "error_text ErrInvalidDelim = ''csv: invalid field or comment delimiter''"
| "error_text ErrShortWrite = ''short write''"

text \<open>\<open>bytes.Buffer.Write\<close> appends and returns the length written and a nil error.\<close>

definition Buffer_Write :: "string \<Rightarrow> string \<Rightarrow> (nat \<times> error option) \<times> string" where
  "Buffer_Write buffer p = ((length p, None), buffer @ p)"

text \<open>
  \<open>bufio.Writer\<close>: the sticky error, the bytes not yet passed on, and the underlying
  buffer. Its fixed capacity, which only decides when bytes are passed on before \<open>Flush\<close>,
  is not modelled: pending bytes are passed on by \<open>Flush\<close>.
\<close>

record bufio =
  b_err :: "error option"
  b_buf :: string
  b_wr :: string

definition bufio_NewWriter :: "string \<Rightarrow> bufio" where
  "bufio_NewWriter buffer = \<lparr>b_err = None, b_buf = [], b_wr = buffer\<rparr>"

definition bufio_WriteString :: "bufio \<Rightarrow> string \<Rightarrow> error option \<times> bufio" where
  "bufio_WriteString b s =
     (if b_err b \<noteq> None then (b_err b, b) else (None, b\<lparr>b_buf := b_buf b @ s\<rparr>))"

definition bufio_WriteByte :: "bufio \<Rightarrow> char \<Rightarrow> error option \<times> bufio" where
  "bufio_WriteByte b c =
     (if b_err b \<noteq> None then (b_err b, b) else (None, b\<lparr>b_buf := b_buf b @ [c]\<rparr>))"

definition bufio_Flush :: "bufio \<Rightarrow> error option \<times> bufio" where
  "bufio_Flush b =
     (if b_err b \<noteq> None then (b_err b, b)
      else if b_buf b = [] then (None, b)
      else (case Buffer_Write (b_wr b) (b_buf b) of
              ((n, e), buffer) \<Rightarrow>
                (let e = (if n < length (b_buf b) \<and> e = None then Some ErrShortWrite else e)
                 in case e of
                      Some x \<Rightarrow> (Some x, b\<lparr>b_err := Some x, b_buf := drop n (b_buf b), b_wr := buffer\<rparr>)
                    | None \<Rightarrow> (None, b\<lparr>b_buf := [], b_wr := buffer\<rparr>))))"

text \<open>The idiom \<open>if err != nil { return err }\<close> between two writes.\<close>

definition andThen ::
  "error option \<times> bufio \<Rightarrow> (bufio \<Rightarrow> error option \<times> bufio) \<Rightarrow> error option \<times> bufio" where
  "andThen r f = (case r of (Some e, b) \<Rightarrow> (Some e, b) | (None, b) \<Rightarrow> f b)"

text \<open>
  \<open>csv.NewWriter\<close> sets \<open>Comma\<close> to a comma and leaves \<open>UseCRLF\<close> false, and
  \<open>ConvertToCSV\<close> changes neither, so both are constants here and \<open>validDelim\<close> is
  stated for the runes that a \<open>char\<close> holds, all of them valid and none \<open>utf8.RuneError\<close>.
\<close>

definition Comma :: char where
  "Comma = CHR '',''"

definition UseCRLF :: bool where
  "UseCRLF = False"

definition validDelim :: "char \<Rightarrow> bool" where
  "validDelim r \<longleftrightarrow>
     r \<noteq> CHR 0x00 \<and> r \<noteq> CHR 0x22 \<and> r \<noteq> CHR 0x0D \<and> r \<noteq> CHR 0x0A"

text \<open>
  \<open>unicode.IsSpace\<close> of the first rune, as \<open>utf8.DecodeRuneInString\<close> yields it: the
  field starts with the UTF-8 encoding of a white space code point (U+0009 to U+000D,
  U+0020, U+0085, U+00A0, U+1680, U+2000 to U+200A, U+2028, U+2029, U+202F, U+205F,
  U+3000).
\<close>

definition space_encodings :: "string list" where
  "space_encodings =
     [[CHR 0x09], [CHR 0x0A], [CHR 0x0B], [CHR 0x0C], [CHR 0x0D], [CHR 0x20],
      [CHR 0xC2, CHR 0x85], [CHR 0xC2, CHR 0xA0], [CHR 0xE1, CHR 0x9A, CHR 0x80],
      [CHR 0xE2, CHR 0x80, CHR 0x80], [CHR 0xE2, CHR 0x80, CHR 0x81],
      [CHR 0xE2, CHR 0x80, CHR 0x82], [CHR 0xE2, CHR 0x80, CHR 0x83],
      [CHR 0xE2, CHR 0x80, CHR 0x84], [CHR 0xE2, CHR 0x80, CHR 0x85],
      [CHR 0xE2, CHR 0x80, CHR 0x86], [CHR 0xE2, CHR 0x80, CHR 0x87],
      [CHR 0xE2, CHR 0x80, CHR 0x88], [CHR 0xE2, CHR 0x80, CHR 0x89],
      [CHR 0xE2, CHR 0x80, CHR 0x8A], [CHR 0xE2, CHR 0x80, CHR 0xA8],
      [CHR 0xE2, CHR 0x80, CHR 0xA9], [CHR 0xE2, CHR 0x80, CHR 0xAF],
      [CHR 0xE2, CHR 0x81, CHR 0x9F], [CHR 0xE3, CHR 0x80, CHR 0x80]]"

definition first_rune_IsSpace :: "string \<Rightarrow> bool" where
  "first_rune_IsSpace field \<longleftrightarrow> list_ex (\<lambda>enc. take (length enc) field = enc) space_encodings"

definition fieldNeedsQuotes :: "string \<Rightarrow> bool" where
  "fieldNeedsQuotes field =
     (if field = [] then False
      else if field = [CHR 0x5C, CHR ''.''] then True
      else if list_ex (\<lambda>c. c = CHR 0x0A \<or> c = CHR 0x0D \<or> c = CHR 0x22 \<or> c = Comma) field then True
      else first_rune_IsSpace field)"

text \<open>\<open>strings.IndexAny\<close> for a set of ASCII characters.\<close>

fun IndexAny :: "string \<Rightarrow> string \<Rightarrow> int" where
  "IndexAny [] chars = - 1"
| "IndexAny (c # s) chars =
     (if c \<in> set chars then 0
      else (let i = IndexAny s chars in if i < 0 then - 1 else i + 1))"

text \<open>
  \<open>Writer.Write\<close>: the \<open>switch\<close> on a special character, the loop over a quoted field,
  the loop over the fields of a record, and the line end. \<open>WriteRune\<close> of the comma writes
  its one byte.
\<close>

definition encode_special :: "bufio \<Rightarrow> char \<Rightarrow> error option \<times> bufio" where
  "encode_special b c =
     (if c = CHR 0x22 then bufio_WriteString b [CHR 0x22, CHR 0x22]
      else if c = CHR 0x0D then (if \<not> UseCRLF then bufio_WriteByte b (CHR 0x0D) else (None, b))
      else if c = CHR 0x0A then
        (if UseCRLF then bufio_WriteString b [CHR 0x0D, CHR 0x0A] else bufio_WriteByte b (CHR 0x0A))
      else (None, b))"

function quoted_loop :: "bufio \<Rightarrow> string \<Rightarrow> error option \<times> bufio" where
  "quoted_loop b field =
     (if field = [] then (None, b)
      else (let i = (let i = IndexAny field [CHR 0x22, CHR 0x0D, CHR 0x0A]
                     in if i < 0 then int (length field) else i)
            in andThen (bufio_WriteString b (take (nat i) field))
                 (\<lambda>b. if drop (nat i) field \<noteq> []
                      then andThen (encode_special b (hd (drop (nat i) field)))
                             (\<lambda>b. quoted_loop b (tl (drop (nat i) field)))
                      else (None, b))))"
  by pat_completeness auto
termination
  by (relation "measure (\<lambda>(b, field). length field)") auto

declare quoted_loop.simps [simp del]

fun write_fields :: "nat \<Rightarrow> bufio \<Rightarrow> string list \<Rightarrow> error option \<times> bufio" where
  "write_fields n b [] = (None, b)"
| "write_fields n b (field # record) =
     andThen (if 0 < n then bufio_WriteByte b Comma else (None, b))
       (\<lambda>b. if \<not> fieldNeedsQuotes field
            then andThen (bufio_WriteString b field) (\<lambda>b. write_fields (Suc n) b record)
            else andThen (bufio_WriteByte b (CHR 0x22))
                   (\<lambda>b. andThen (quoted_loop b field)
                     (\<lambda>b. andThen (bufio_WriteByte b (CHR 0x22))
                       (\<lambda>b. write_fields (Suc n) b record))))"

definition csv_Write :: "bufio \<Rightarrow> string list \<Rightarrow> error option \<times> bufio" where
  "csv_Write w record =
     (if \<not> validDelim Comma then (Some ErrInvalidDelim, w)
      else andThen (write_fields 0 w record)
             (\<lambda>b. if UseCRLF then bufio_WriteString b [CHR 0x0D, CHR 0x0A]
                  else bufio_WriteByte b (CHR 0x0A)))"

text \<open>\<open>Writer.Flush\<close> drops the result of the flush; \<open>Writer.Error\<close> reads the sticky error.\<close>

definition csv_Flush :: "bufio \<Rightarrow> bufio" where
  "csv_Flush w = snd (bufio_Flush w)"

definition csv_Error :: "bufio \<Rightarrow> error option" where
  "csv_Error w = b_err w"

text \<open>\<open>ConvertToCSV\<close>, lines 319 to 351; \<open>Inl\<close> carries the text of the returned error.\<close>

definition header :: "string list" where
  "header = [''timestamp'', ''level'', ''message'', ''path'', ''method'', ''duration'', ''status'']"

definition row :: "LogEntry \<Rightarrow> string list" where
  "row entry =
     [Timestamp entry, Level entry, Message entry, Path entry, Method entry,
      FormatInt64 (Duration entry), FormatInt64 (Status entry)]"

fun rows_loop :: "bufio \<Rightarrow> LogEntry list \<Rightarrow> string + bufio" where
  "rows_loop writer [] = Inr writer"
| "rows_loop writer (entry # logs) =
     (case csv_Write writer (row entry) of
        (Some e, writer) \<Rightarrow> Inl (''error writing CSV row: '' @ error_text e)
      | (None, writer) \<Rightarrow> rows_loop writer logs)"

definition ConvertToCSV :: "LogEntry list \<Rightarrow> string + string" where
  "ConvertToCSV logs =
     (let writer = bufio_NewWriter []
      in case csv_Write writer header of
           (Some e, writer) \<Rightarrow> Inl (''error writing CSV header: '' @ error_text e)
         | (None, writer) \<Rightarrow>
             (case rows_loop writer logs of
                Inl msg \<Rightarrow> Inl msg
              | Inr writer \<Rightarrow>
                  (let writer = csv_Flush writer
                   in case csv_Error writer of
                        Some e \<Rightarrow> Inl (''error flushing CSV writer: '' @ error_text e)
                      | None \<Rightarrow> Inr (b_wr writer))))"

section \<open>The remote analysis client, \<open>callGeminiAPI\<close>\<close>

text \<open>
  Values of type \<open>interface{}\<close> as \<open>encoding/json\<close> produces and consumes them; a map is
  the list of its entries and \<open>map_index\<close> the index expression, nil for an absent key.
\<close>

datatype goval =
    VNil
  | VBool bool
  | VInt int
  | VFloat float64
  | VString string
  | VSlice "goval list"
  | VMap "(string \<times> goval) list"

definition map_index :: "(string \<times> goval) list \<Rightarrow> string \<Rightarrow> goval" where
  "map_index m k = (case map_of m k of None \<Rightarrow> VNil | Some v \<Rightarrow> v)"

text \<open>
  What a library call returns: a value, or an error with its text. What a function of the
  service returns: a value, an error with its text, or a panic.
\<close>

datatype 'a outcome = Failed string | Ok 'a

datatype 'a go_result = Panic | Err string | Val 'a

text \<open>
  The request and the response of \<open>net/http\<close>, as far as the function uses them; \<open>Body\<close>
  is what \<open>io.ReadAll(resp.Body)\<close> returns.
\<close>

record http_Request =
  req_Method :: string
  req_URL :: string
  req_Header :: "string \<rightharpoonup> string list"
  req_Body :: string

text \<open>
  \<open>textproto.CanonicalMIMEHeaderKey\<close>: a key made of header field bytes only (the token
  characters of RFC 7230) gets its first letter and every letter after a hyphen in upper
  case and the other letters in lower case; any other key is returned unchanged.
\<close>

definition lower_letters :: string where
  "lower_letters = ''abcdefghijklmnopqrstuvwxyz''"

definition upper_letters :: string where
  "upper_letters = ''ABCDEFGHIJKLMNOPQRSTUVWXYZ''"

definition validHeaderFieldByte :: "char \<Rightarrow> bool" where
  "validHeaderFieldByte c \<longleftrightarrow>
     c \<in> set (''!#$%&'' @ [CHR 0x27] @ ''*+-.^_`|~'' @ ''0123456789'' @
              lower_letters @ upper_letters)"

definition to_upper :: "char \<Rightarrow> char" where
  "to_upper c = (case map_of (zip lower_letters upper_letters) c of None \<Rightarrow> c | Some u \<Rightarrow> u)"

definition to_lower :: "char \<Rightarrow> char" where
  "to_lower c = (case map_of (zip upper_letters lower_letters) c of None \<Rightarrow> c | Some l \<Rightarrow> l)"

fun canonical_loop :: "bool \<Rightarrow> string \<Rightarrow> string" where
  "canonical_loop upper [] = []"
| "canonical_loop upper (c # a) =
     (let c = (if upper \<and> c \<in> set lower_letters then to_upper c
               else if \<not> upper \<and> c \<in> set upper_letters then to_lower c
               else c)
      in c # canonical_loop (c = CHR ''-'') a)"

definition CanonicalMIMEHeaderKey :: "string \<Rightarrow> string" where
  "CanonicalMIMEHeaderKey s = (if list_all validHeaderFieldByte s then canonical_loop True s else s)"

text \<open>\<open>Header.Set\<close> stores the one value under the canonical key.\<close>

definition Header_Set ::
  "(string \<rightharpoonup> string list) \<Rightarrow> string \<Rightarrow> string \<Rightarrow> (string \<rightharpoonup> string list)" where
  "Header_Set h key val = h(CanonicalMIMEHeaderKey key \<mapsto> [val])"

record http_Response =
  StatusCode :: goint
  Body :: "string outcome"

text \<open>
  The calls that leave the program: \<open>json.Marshal\<close>, \<open>http.NewRequestWithContext\<close> (with
  the context of the caller), \<open>client.Do\<close> (the network, with the client's timeout of 15
  seconds) and \<open>json.Unmarshal\<close> into a \<open>map[string]interface{}\<close>.
\<close>

record env =
  Marshal :: "goval \<Rightarrow> string outcome"
  NewRequestWithContext :: "string \<Rightarrow> string \<Rightarrow> string \<Rightarrow> http_Request outcome"
  Do :: "http_Request \<Rightarrow> http_Response outcome"
  Unmarshal :: "string \<Rightarrow> (string \<times> goval) list outcome"

definition geminiEndpoint :: string where
  "geminiEndpoint =
     ''https://generativelanguage.googleapis.com/v1beta/models/gemini-2.0-flash:generateContent''"

definition StatusOK :: goint where
  "StatusOK = 200"

definition reqBody :: "string \<Rightarrow> goval" where
  "reqBody prompt =
     VMap [(''contents'', VSlice [VMap [(''parts'', VSlice [VMap [(''text'', VString prompt)]])]]),
           (''generationConfig'',
            VMap [(''temperature'', VFloat (round_float64 (3 / 10))),
                  (''topP'', VFloat (round_float64 (8 / 10))),
                  (''topK'', VInt 40),
                  (''maxOutputTokens'', VInt 1024)])]"

text \<open>
  Lines 296 to 316. A type assertion with \<open>ok\<close> yields an error, one without panics:
  \<open>candidates[0]\<close> and \<open>parts[0]\<close> are asserted to be maps without \<open>ok\<close>.
\<close>

definition extract_text :: "string \<Rightarrow> (string \<times> goval) list \<Rightarrow> string go_result" where
  "extract_text body result =
     (case map_index result ''candidates'' of
        VSlice candidates \<Rightarrow>
          (if candidates = [] then Err (''no candidates in response: '' @ body)
           else (case hd candidates of
                   VMap candidate \<Rightarrow>
                     (case map_index candidate ''content'' of
                        VMap content \<Rightarrow>
                          (case map_index content ''parts'' of
                             VSlice parts \<Rightarrow>
                               (if parts = [] then Err (''no parts in response: '' @ body)
                                else (case hd parts of
                                        VMap part \<Rightarrow>
                                          (case map_index part ''text'' of
                                             VString text \<Rightarrow> Val text
                                           | _ \<Rightarrow> Err (''invalid text format in response: '' @ body))
                                      | _ \<Rightarrow> Panic))
                           | _ \<Rightarrow> Err (''no parts in response: '' @ body))
                      | _ \<Rightarrow> Err (''invalid response format: '' @ body))
                 | _ \<Rightarrow> Panic))
      | _ \<Rightarrow> Err (''no candidates in response: '' @ body))"

text \<open>Lines 245 to 317.\<close>

definition callGeminiAPI :: "env \<Rightarrow> string \<Rightarrow> string \<Rightarrow> string go_result" where
  "callGeminiAPI e apiKey prompt =
     (case Marshal e (reqBody prompt) of
        Failed err \<Rightarrow> Err (''error marshaling request: '' @ err)
      | Ok jsonData \<Rightarrow>
          (case NewRequestWithContext e ''POST'' geminiEndpoint jsonData of
             Failed err \<Rightarrow> Err (''error creating request: '' @ err)
           | Ok req \<Rightarrow>
               (let req = req\<lparr>req_Header :=
                                Header_Set (req_Header req) ''Content-Type'' ''application/json''\<rparr>;
                    req = req\<lparr>req_Header := Header_Set (req_Header req) ''x-goog-api-key'' apiKey\<rparr>
                in case Do e req of
                     Failed err \<Rightarrow> Err (''error making request: '' @ err)
                   | Ok resp \<Rightarrow>
                       (case Body resp of
                          Failed err \<Rightarrow> Err (''error reading response body: '' @ err)
                        | Ok body \<Rightarrow>
                            if StatusCode resp \<noteq> StatusOK
                            then Err (''API error (status '' @ FormatInt64 (StatusCode resp) @
                                      ''): '' @ body)
                            else (case Unmarshal e body of
                                    Failed err \<Rightarrow> Err (''error parsing response: '' @ err)
                                  | Ok result \<Rightarrow> extract_text body result)))))"

section \<open>Closed forms of the statistics\<close>

text \<open>
  What the loops compute, said without the loop: the statistics of a path are functions of
  the entries of that path, in input order.
\<close>

definition entries_of :: "string \<Rightarrow> LogEntry list \<Rightarrow> LogEntry list" where
  "entries_of p logs = filter (\<lambda>e. Path e = p) logs"

definition logStats_of :: "LogEntry list \<Rightarrow> logStats" where
  "logStats_of es =
     \<lparr>count = of_nat (length es), totalTime = sum_list (map Duration es),
      errors = of_nat (length (filter (\<lambda>e. 400 \<le>s Status e) es))\<rparr>"

definition smin :: "int64 \<Rightarrow> int64 \<Rightarrow> int64" where
  "smin a d = (if d <s a then d else a)"

definition smax :: "int64 \<Rightarrow> int64 \<Rightarrow> int64" where
  "smax a d = (if a <s d then d else a)"

definition perfStats_of :: "LogEntry list \<Rightarrow> perfStats" where
  "perfStats_of es =
     \<lparr>count = of_nat (length es), totalTime = sum_list (map Duration es),
      errors = of_nat (length (filter (\<lambda>e. 400 \<le>s Status e) es)),
      maxTime = foldl smax (Duration (hd es)) (map Duration (tl es)),
      minTime = foldl smin (Duration (hd es)) (map Duration (tl es))\<rparr>"

text \<open>
  The CSV text in the specification's words: a field that needs quotes stands between
  double quotes with every double quote doubled, the fields of a row are joined by commas,
  and a line feed ends the row.
\<close>

definition csv_escape :: "string \<Rightarrow> string" where
  "csv_escape field = concat (map (\<lambda>c. if c = CHR 0x22 then [CHR 0x22, CHR 0x22] else [c]) field)"

definition csv_field :: "string \<Rightarrow> string" where
  "csv_field field =
     (if fieldNeedsQuotes field then [CHR 0x22] @ csv_escape field @ [CHR 0x22] else field)"

fun join_comma :: "string list \<Rightarrow> string" where
  "join_comma [] = []"
| "join_comma [f] = f"
| "join_comma (f # fs) = f @ '','' @ join_comma fs"

definition csv_line :: "string list \<Rightarrow> string" where
  "csv_line fs = join_comma (map csv_field fs) @ [CHR 0x0A]"

text \<open>A write that succeeds: the bytes join the pending ones.\<close>

definition emit :: "bufio \<Rightarrow> string \<Rightarrow> error option \<times> bufio" where
  "emit b s = (None, b\<lparr>b_buf := b_buf b @ s\<rparr>)"

definition sep :: "nat \<Rightarrow> string" where
  "sep n = (if 0 < n then '','' else [])"

text \<open>
  The request as \<open>client.Do\<close> receives it: the new request with the two headers set,
  under their canonical keys.
\<close>

definition sent_request :: "http_Request \<Rightarrow> string \<Rightarrow> http_Request" where
  "sent_request req apiKey =
     req\<lparr>req_Header := (req_Header req)(''Content-Type'' \<mapsto> [''application/json''],
                                          ''X-Goog-Api-Key'' \<mapsto> [apiKey])\<rparr>"

section \<open>Sample inputs\<close>

text \<open>
  The batch of the specification's end-to-end scenario: two entries for \<open>/api/users\<close> with
  durations 100 and 300, one for \<open>/api/slow\<close> with duration 2000 and status 500.
\<close>

definition sample_logs :: "LogEntry list" where
  "sample_logs =
     [\<lparr>Timestamp = ''T1'', Level = ''info'', Message = ''ok'', Path = ''/api/users'',
       Method = ''GET'', Duration = 100, Status = 200, Metadata = Map.empty\<rparr>,
      \<lparr>Timestamp = ''T2'', Level = ''info'', Message = ''ok'', Path = ''/api/users'',
       Method = ''GET'', Duration = 300, Status = 200, Metadata = Map.empty\<rparr>,
      \<lparr>Timestamp = ''T3'', Level = ''info'', Message = ''late'', Path = ''/api/slow'',
       Method = ''GET'', Duration = 2000, Status = 500, Metadata = Map.empty\<rparr>]"

text \<open>Two entries of one path whose durations add up to \<open>2 ^ 63\<close>.\<close>

definition overflow_entry :: LogEntry where
  "overflow_entry =
     \<lparr>Timestamp = ''T1'', Level = ''info'', Message = ''m'', Path = ''/p'',
      Method = ''GET'', Duration = 4611686018427387904, Status = 200, Metadata = Map.empty\<rparr>"

definition overflow_logs :: "LogEntry list" where
  "overflow_logs = [overflow_entry, overflow_entry]"

text \<open>The entry of the specification's CSV example.\<close>

definition csv_sample :: LogEntry where
  "csv_sample =
     \<lparr>Timestamp = ''T1'', Level = ''info'', Message = ''m,with,commas'', Path = ''/p'',
      Method = ''GET'', Duration = 10, Status = 200, Metadata = Map.empty\<rparr>"

definition users_stats :: perfStats where
  "users_stats = \<lparr>count = 2, totalTime = 400, errors = 0, maxTime = 300, minTime = 100\<rparr>"

definition overflow_stats :: perfStats where
  "overflow_stats =
     \<lparr>count = 2, totalTime = - 9223372036854775808, errors = 0,
      maxTime = 4611686018427387904, minTime = 4611686018427387904\<rparr>"

text \<open>
  A world in which the endpoint answers every request with the given status and the body
  \<open>quota exceeded\<close>, which is not JSON.
\<close>

definition sample_env :: "goint \<Rightarrow> env" where
  "sample_env status =
     \<lparr>Marshal = (\<lambda>v. Ok ''{}''),
      NewRequestWithContext =
        (\<lambda>m u b. Ok \<lparr>req_Method = m, req_URL = u, req_Header = Map.empty, req_Body = b\<rparr>),
      Do = (\<lambda>req. Ok \<lparr>StatusCode = status, Body = Ok ''quota exceeded''\<rparr>),
      Unmarshal = (\<lambda>b. Failed ''invalid character'')\<rparr>"

section \<open>The renderings denote the numbers\<close>

text \<open>
  \<open>digits\<close> writes decimal digits only, and they denote the number; \<open>ilog2\<close> is the
  exponent of the leading bit.
\<close>

lemma digit_char_value: "d < 10 \<Longrightarrow> of_char (digit_char d) - 48 = d"
proof -
  assume "d < 10"
  then have "d \<in> {0, 1, 2, 3, 4, 5, 6, 7, 8, 9}" by auto
  then show ?thesis by (auto simp: digit_char_def)
qed

lemma digit_char_range: "d < 10 \<Longrightarrow> digit_char d \<in> set ''0123456789''"
  unfolding digit_char_def by (rule nth_mem) simp

lemma decimal_value_snoc: "decimal_value (s @ [c]) = 10 * decimal_value s + (of_char c - 48)"
  by (simp add: decimal_value_def)

lemma decimal_value_digits: "decimal_value (digits n) = n"
proof (induction n rule: digits.induct)
  case (1 n)
  show ?case
  proof (cases "n < 10")
    case True
    then show ?thesis
      by (subst digits.simps) (simp add: decimal_value_def digit_char_value)
  next
    case False
    with 1 have "decimal_value (digits (n div 10)) = n div 10" by simp
    with False show ?thesis
      by (subst digits.simps) (simp add: decimal_value_snoc digit_char_value)
  qed
qed

lemma set_digits: "set (digits n) \<subseteq> set ''0123456789''"
proof (induction n rule: digits.induct)
  case (1 n)
  show ?case
  proof (cases "n < 10")
    case True
    then show ?thesis
      using digit_char_range [of n] by (subst digits.simps) simp
  next
    case False
    with 1 have "set (digits (n div 10)) \<subseteq> set ''0123456789''" by simp
    with False show ?thesis
      using digit_char_range [of "n mod 10"] by (subst digits.simps) simp
  qed
qed

lemma bit_length_nonneg: "0 \<le> bit_length n"
proof (induction n rule: bit_length.induct)
  case (1 n)
  then show ?case by (subst bit_length.simps) simp
qed

lemma bit_length_bounds: "0 < n \<Longrightarrow> 2 ^ nat (bit_length n - 1) \<le> n \<and> n < 2 ^ nat (bit_length n)"
proof (induction n rule: bit_length.induct)
  case (1 n)
  show ?case
  proof (cases "n = 1")
    case True
    then show ?thesis by (simp add: bit_length.simps)
  next
    case False
    with 1 have pos: "0 < n div 2" by simp
    with 1 have IH: "2 ^ nat (bit_length (n div 2) - 1) \<le> n div 2"
      "n div 2 < 2 ^ nat (bit_length (n div 2))" by simp_all
    have bl: "bit_length n = 1 + bit_length (n div 2)"
      using 1 by (subst bit_length.simps) simp
    have blpos: "0 < bit_length (n div 2)"
      using pos bit_length_nonneg [of "n div 2 div 2"] by (subst bit_length.simps) simp
    then have e: "nat (bit_length n - 1) = Suc (nat (bit_length (n div 2) - 1))"
      "nat (bit_length n) = Suc (nat (bit_length (n div 2)))" by (simp_all add: bl nat_add_distrib)
    from IH show ?thesis unfolding e by simp linarith
  qed
qed


lemma ilog2_bounds:
  assumes "0 < x"
  shows "2 powi (ilog2 x) \<le> x \<and> x < 2 powi (ilog2 x + 1)"
proof (cases "1 \<le> x")
  case True
  define n where "n = \<lfloor>x\<rfloor>"
  have n: "0 < n" using True by (simp add: n_def)
  define k where "k = nat (bit_length n - 1)"
  have blpos: "0 < bit_length n"
    using n bit_length_nonneg [of "n div 2"] by (subst bit_length.simps) simp
  then have k: "bit_length n = int k + 1" and k2: "nat (bit_length n) = Suc k"
    by (simp_all add: k_def)
  have b: "2 ^ k \<le> n" "n < 2 ^ Suc k"
    using bit_length_bounds [OF n] by (simp_all only: k2 flip: k_def)
  have il: "ilog2 x = int k" using True by (simp add: ilog2_def k flip: n_def)
  have "(of_int (2 ^ k) :: rat) \<le> of_int n" using b(1) by (simp only: of_int_le_iff)
  also have "\<dots> \<le> x" by (simp add: n_def)
  finally have lo: "2 ^ k \<le> x" by simp
  have "n + 1 \<le> 2 ^ Suc k" using b(2) by simp
  then have "(of_int (n + 1) :: rat) \<le> of_int (2 ^ Suc k)" by (simp only: of_int_le_iff)
  moreover have "x < of_int (n + 1)" unfolding n_def by linarith
  ultimately have "x < of_int (2 ^ Suc k)" by (rule less_le_trans [rotated])
  then have hi: "x < 2 ^ Suc k" by simp
  have "int k + 1 = int (Suc k)" by simp
  with lo hi show ?thesis by (simp only: il power_int_of_nat)
next
  case False
  define y where "y = 1 / x"
  have y: "1 < y" using False assms by (simp add: y_def)
  define m where "m = \<lceil>y\<rceil> - 1"
  have m: "0 < m" using y unfolding m_def by linarith
  define k where "k = nat (bit_length m - 1)"
  have blpos: "0 < bit_length m"
    using m bit_length_nonneg [of "m div 2"] by (subst bit_length.simps) simp
  then have k: "bit_length m = int k + 1" and k2: "nat (bit_length m) = Suc k"
    by (simp_all add: k_def)
  have b: "2 ^ k \<le> m" "m < 2 ^ Suc k"
    using bit_length_bounds [OF m] by (simp_all only: k2 flip: k_def)
  have il: "ilog2 x = - int (Suc k)"
    using False by (simp add: ilog2_def k flip: y_def m_def)
  have "m + 1 \<le> 2 ^ Suc k" using b(2) by simp
  then have "(of_int (m + 1) :: rat) \<le> of_int (2 ^ Suc k)" by (simp only: of_int_le_iff)
  moreover have "y \<le> of_int (m + 1)" unfolding m_def by simp
  ultimately have "y \<le> of_int (2 ^ Suc k)" by (rule order_trans [rotated])
  then have yhi: "y \<le> 2 ^ Suc k" by simp
  have "(2::rat) ^ k = of_int (2 ^ k)" by simp
  also have "\<dots> \<le> of_int m" using b(1) by (simp only: of_int_le_iff)
  also have "\<dots> < y" unfolding m_def by linarith
  finally have ylo: "2 ^ k < y" .
  have x: "x = 1 / y" using assms by (simp add: y_def)
  have lo: "1 / 2 ^ Suc k \<le> x"
    unfolding x using yhi y by (intro divide_left_mono) simp_all
  have hi: "x < 1 / 2 ^ k"
    unfolding x using ylo y by (intro divide_strict_left_mono) simp_all
  have e1: "(2::rat) powi (- int (Suc k)) = 1 / 2 ^ Suc k"
    by (simp only: power_int_minus power_int_of_nat inverse_eq_divide)
  have "- int (Suc k) + 1 = - int k" by simp
  then have e2: "(2::rat) powi (- int (Suc k) + 1) = 1 / 2 ^ k"
    by (simp only: power_int_minus power_int_of_nat inverse_eq_divide)
  from lo hi show ?thesis by (simp only: il e1 e2)
qed

section \<open>The loops compute the closed forms\<close>

lemma entries_of_snoc:
  "entries_of p (logs @ [e]) = (if Path e = p then entries_of p logs @ [e] else entries_of p logs)"
  by (simp add: entries_of_def)

lemma length_entries_of_le: "length (entries_of p logs) \<le> length logs"
  by (simp add: entries_of_def)

lemma logs_loop_snoc: "logs_loop st (logs @ [e]) = logs_body (logs_loop st logs) e"
  by (induction logs arbitrary: st) simp_all

lemma perf_loop_snoc: "perf_loop m (logs @ [e]) = perf_body (perf_loop m logs) e"
  by (induction logs arbitrary: m) simp_all

lemma logs_loop_stats:
  "fst (AnalyzeLogs_loop logs) p =
     (if entries_of p logs = [] then None else Some (logStats_of (entries_of p logs)))"
proof (induction logs arbitrary: p rule: rev_induct)
  case Nil
  show ?case by (simp add: AnalyzeLogs_loop_def entries_of_def)
next
  case (snoc e logs)
  then show ?case
    by (simp add: AnalyzeLogs_loop_def logs_loop_snoc logs_body_def Let_def entries_of_snoc
        index_or_def logs_update_def logStats_of_def zeroLogStats_def)
qed

lemma sint_of_nat_slice: "n < 2 ^ 63 \<Longrightarrow> sint (of_nat n :: 64 word) = int n"
  by (simp add: signed_of_nat signed_take_bit_int_eq_self)

lemma word_of_nat_slice_neq0: "0 < n \<Longrightarrow> n < 2 ^ 63 \<Longrightarrow> (of_nat n :: 64 word) \<noteq> 0"
  using sint_of_nat_slice [of n] by auto

lemma perfStats_of_single: "perf_update zeroPerfStats e = perfStats_of [e]"
  by (simp add: perf_update_def zeroPerfStats_def perfStats_of_def)

lemma perfStats_of_snoc:
  assumes "es \<noteq> []" "length es < 2 ^ 63"
  shows "perf_update (perfStats_of es) e = perfStats_of (es @ [e])"
proof -
  have "(of_nat (length es) :: 64 word) \<noteq> 0"
    using assms by (simp add: word_of_nat_slice_neq0)
  then show ?thesis using assms(1)
    by (simp add: perf_update_def perfStats_of_def smin_def smax_def Let_def)
qed

lemma perf_loop_stats:
  "is_slice logs \<Longrightarrow> AnalyzePerformance_loop logs p =
     (if entries_of p logs = [] then None else Some (perfStats_of (entries_of p logs)))"
proof (induction logs arbitrary: p rule: rev_induct)
  case Nil
  show ?case by (simp add: AnalyzePerformance_loop_def entries_of_def)
next
  case (snoc e logs)
  have sl: "is_slice logs" using snoc.prems by (simp add: is_slice_def)
  have len: "length (entries_of q logs) < 2 ^ 63" for q
    using sl length_entries_of_le [of q logs] by (simp add: is_slice_def)
  note IH = snoc.IH [OF sl, unfolded AnalyzePerformance_loop_def]
  have step: "entries_of q logs \<noteq> [] \<Longrightarrow>
      perf_update (perfStats_of (entries_of q logs)) e = perfStats_of (entries_of q logs @ [e])" for q
    by (rule perfStats_of_snoc, assumption, rule len)
  show ?case
    by (simp add: AnalyzePerformance_loop_def perf_loop_snoc perf_body_def entries_of_snoc
        index_or_def IH perfStats_of_single step)
qed

lemma dom_AnalyzeLogs_loop: "dom (fst (AnalyzeLogs_loop logs)) = Path ` set logs"
  by (auto simp: dom_def logs_loop_stats entries_of_def filter_empty_conv)

lemma dom_AnalyzePerformance_loop:
  "is_slice logs \<Longrightarrow> dom (AnalyzePerformance_loop logs) = Path ` set logs"
  by (auto simp: dom_def perf_loop_stats entries_of_def filter_empty_conv)

lemma sum_entries_of:
  "(\<Sum>p\<in>Path ` set logs. int (length (entries_of p logs))) = int (length logs)"
proof -
  have "sum (count_list (map Path logs)) (set (map Path logs)) = length (map Path logs)"
    by (rule sum_count_set) simp_all
  moreover have "count_list (map Path logs) p = length (entries_of p logs)" for p
    by (simp add: count_list_eq_length_filter entries_of_def filter_map comp_def eq_commute)
  ultimately show ?thesis by (simp flip: of_nat_sum)
qed

section \<open>Bounds of the closed forms\<close>

lemma foldl_smin:
  "sint (foldl smin a ds) \<le> sint a \<and> (\<forall>d\<in>set ds. sint (foldl smin a ds) \<le> sint d)"
proof (induction ds arbitrary: a)
  case Nil
  show ?case by simp
next
  case (Cons d ds)
  have "sint (smin a d) \<le> sint a" "sint (smin a d) \<le> sint d"
    by (simp_all add: smin_def word_sless_alt)
  with Cons [of "smin a d"] show ?case by auto
qed

lemma foldl_smax:
  "sint a \<le> sint (foldl smax a ds) \<and> (\<forall>d\<in>set ds. sint d \<le> sint (foldl smax a ds))"
proof (induction ds arbitrary: a)
  case Nil
  show ?case by simp
next
  case (Cons d ds)
  have "sint a \<le> sint (smax a d)" "sint d \<le> sint (smax a d)"
    by (simp_all add: smax_def word_sless_alt)
  with Cons [of "smax a d"] show ?case by auto
qed

lemma perfStats_of_bounds:
  assumes "e \<in> set es"
  shows "sint (minTime (perfStats_of es)) \<le> sint (Duration e)"
    and "sint (Duration e) \<le> sint (maxTime (perfStats_of es))"
proof -
  from assms obtain x xs where es: "es = x # xs" by (cases es) auto
  with assms have "e = x \<or> Duration e \<in> set (map Duration xs)" by auto
  then show "sint (minTime (perfStats_of es)) \<le> sint (Duration e)"
    using foldl_smin [of "Duration x" "map Duration xs"] by (auto simp: perfStats_of_def es)
  from \<open>e = x \<or> Duration e \<in> set (map Duration xs)\<close>
  show "sint (Duration e) \<le> sint (maxTime (perfStats_of es))"
    using foldl_smax [of "Duration x" "map Duration xs"] by (auto simp: perfStats_of_def es)
qed

lemma sum_list_word_of_int:
  "(sum_list ws :: 'a::len word) = word_of_int (sum_list (map sint ws))"
  by (induction ws) simp_all

lemma sum_list_bounds:
  fixes f :: "'a \<Rightarrow> int"
  assumes "\<forall>x\<in>set xs. m \<le> f x \<and> f x \<le> M"
  shows "int (length xs) * m \<le> sum_list (map f xs) \<and> sum_list (map f xs) \<le> int (length xs) * M"
  using assms by (induction xs) (auto simp: algebra_simps)

lemma int_div_lower: "0 < n \<Longrightarrow> n * m \<le> S \<Longrightarrow> m \<le> S div (n::int)"
  using zdiv_mono1 [of "n * m" S n] by simp

lemma int_div_upper: "0 < n \<Longrightarrow> S \<le> n * M \<Longrightarrow> S div n \<le> (M::int)"
  using zdiv_mono1 [of S "n * M" n] by simp

lemma sdiv_between:
  fixes S n m M :: int
  assumes "0 < n" "n * m \<le> S" "S \<le> n * M"
  shows "m \<le> S sdiv n \<and> S sdiv n \<le> M"
proof (cases "0 \<le> S")
  case True
  with assms int_div_lower [of n m S] int_div_upper [of n S M] show ?thesis
    by (auto simp add: signed_divide_int_def sgn_if)
next
  case False
  with assms int_div_lower [of n "- M" "- S"] int_div_upper [of n "- S" "- m"] show ?thesis
    by (simp add: signed_divide_int_def sgn_if)
qed

lemma avgTime_perfStats_of:
  assumes "es \<noteq> []" "length es < 2 ^ 63"
    and "- (2 ^ 63) \<le> sum_list (map (\<lambda>e. sint (Duration e)) es)"
    and "sum_list (map (\<lambda>e. sint (Duration e)) es) < 2 ^ 63"
  shows "\<exists>avg. avgTime (perfStats_of es) = Some avg \<and>
           sint (minTime (perfStats_of es)) \<le> sint avg \<and>
           sint avg \<le> sint (maxTime (perfStats_of es))"
proof -
  let ?S = "sum_list (map (\<lambda>e. sint (Duration e)) es)"
  let ?n = "int (length es)"
  let ?m = "sint (minTime (perfStats_of es))"
  let ?M = "sint (maxTime (perfStats_of es))"
  have n: "0 < ?n" using assms(1) by simp
  have cnt: "sint (count (perfStats_of es)) = ?n"
    using assms(2) by (simp add: perfStats_of_def sint_of_nat_slice)
  then have nz: "count (perfStats_of es) \<noteq> 0" using n by auto
  have tot: "sint (totalTime (perfStats_of es)) = ?S"
    using assms(3,4)
    by (simp add: perfStats_of_def sum_list_word_of_int [of "map Duration es"] comp_def
        sint_sbintrunc' signed_take_bit_int_eq_self)
  have "\<forall>e\<in>set es. ?m \<le> sint (Duration e) \<and> sint (Duration e) \<le> ?M"
    using perfStats_of_bounds by blast
  from sum_list_bounds [OF this] have "?n * ?m \<le> ?S" "?S \<le> ?n * ?M" by simp_all
  from sdiv_between [OF n this] have b: "?m \<le> ?S sdiv ?n" "?S sdiv ?n \<le> ?M" by simp_all
  have "- (2 ^ 63) \<le> ?m" "?M < 2 ^ 63"
    using sint_ge [of "minTime (perfStats_of es)"] sint_lt [of "maxTime (perfStats_of es)"]
    by simp_all
  with b have "sint (word_of_int (?S sdiv ?n) :: int64) = ?S sdiv ?n"
    by (simp add: sint_sbintrunc' signed_take_bit_int_eq_self)
  with b nz cnt tot show ?thesis by (simp add: avgTime_def div_int64_def)
qed

lemma errors_perfStats_of:
  assumes "length es < 2 ^ 63"
  shows "0 \<le> sint (errors (perfStats_of es))"
    and "sint (errors (perfStats_of es)) \<le> sint (count (perfStats_of es))"
proof -
  let ?k = "length (filter (\<lambda>e. 400 \<le>s Status e) es)"
  have k: "?k < 2 ^ 63" by (rule le_less_trans [OF length_filter_le assms])
  show "0 \<le> sint (errors (perfStats_of es))"
    using sint_of_nat_slice [OF k] by (simp add: perfStats_of_def)
  show "sint (errors (perfStats_of es)) \<le> sint (count (perfStats_of es))"
    using sint_of_nat_slice [OF k] sint_of_nat_slice [OF assms] by (simp add: perfStats_of_def)
qed

section \<open>Counts add up to the batch length\<close>

text \<open>
  Claim C1. For every batch of log entries (a Go slice, so shorter than \<open>2 ^ 63\<close>), empty
  or not, the per-path counts computed by the aggregation loop of \<open>AnalyzeLogs\<close> add up,
  over the distinct paths, to the length of the batch; and so do those computed by the loop
  of \<open>AnalyzePerformance\<close>.
\<close>

theorem count_sum_eq_length:
  assumes "is_slice logs"
  shows "(\<Sum>p\<in>dom (fst (AnalyzeLogs_loop logs)).
            sint (count (the (fst (AnalyzeLogs_loop logs) p)))) = int (length logs) \<and>
         (\<Sum>p\<in>dom (AnalyzePerformance_loop logs).
            sint (count (the (AnalyzePerformance_loop logs p)))) = int (length logs)"
proof -
  have len: "length (entries_of p logs) < 2 ^ 63" for p
    using assms length_entries_of_le [of p logs] by (simp add: is_slice_def)
  have ne: "entries_of p logs \<noteq> []" if "p \<in> Path ` set logs" for p
    using that by (auto simp: entries_of_def filter_empty_conv)
  have "sint (count (the (fst (AnalyzeLogs_loop logs) p))) = int (length (entries_of p logs))"
    if "p \<in> Path ` set logs" for p
    using ne [OF that] by (simp add: logs_loop_stats logStats_of_def sint_of_nat_slice [OF len])
  then have A: "(\<Sum>p\<in>dom (fst (AnalyzeLogs_loop logs)).
      sint (count (the (fst (AnalyzeLogs_loop logs) p)))) = int (length logs)"
    by (simp add: dom_AnalyzeLogs_loop sum_entries_of)
  have "sint (count (the (AnalyzePerformance_loop logs p))) = int (length (entries_of p logs))"
    if "p \<in> Path ` set logs" for p
    using ne [OF that]
    by (simp add: perf_loop_stats [OF assms] perfStats_of_def sint_of_nat_slice [OF len])
  then have B: "(\<Sum>p\<in>dom (AnalyzePerformance_loop logs).
      sint (count (the (AnalyzePerformance_loop logs p)))) = int (length logs)"
    by (simp add: dom_AnalyzePerformance_loop [OF assms] sum_entries_of)
  from A B show ?thesis by (rule conjI)
qed

theorem count_sum_eq_length_witness:
  "is_slice sample_logs \<and> sample_logs \<noteq> [] \<and>
   (\<Sum>p\<in>dom (fst (AnalyzeLogs_loop sample_logs)).
      sint (count (the (fst (AnalyzeLogs_loop sample_logs) p)))) = 3 \<and>
   (\<Sum>p\<in>dom (AnalyzePerformance_loop sample_logs).
      sint (count (the (AnalyzePerformance_loop sample_logs p)))) = 3"
proof -
  have h: "is_slice sample_logs" by (simp add: is_slice_def sample_logs_def)
  have n: "sample_logs \<noteq> []" "int (length sample_logs) = 3" by (simp_all add: sample_logs_def)
  from count_sum_eq_length [OF h] h n show ?thesis by simp
qed

section \<open>Invariants of the performance statistics\<close>

text \<open>
  Claim C2, as amended. For every batch (a Go slice) and every path present in the
  statistics computed by \<open>AnalyzePerformance\<close>: the count is at least 1 and the error
  count is between 0 and the count; and, provided that the exact sum of the durations of
  that path's entries is an \<open>int64\<close> value, the division \<open>totalTime / count\<close> does not
  panic and its result (Go's truncating division) lies between \<open>minTime\<close> and \<open>maxTime\<close>.
  Negative durations are covered.
\<close>

theorem perf_stats_invariant:
  assumes "is_slice logs" and "AnalyzePerformance_loop logs p = Some stats"
  shows "1 \<le> sint (count stats) \<and> 0 \<le> sint (errors stats) \<and>
         sint (errors stats) \<le> sint (count stats) \<and>
         (- (2 ^ 63) \<le> (\<Sum>e\<leftarrow>entries_of p logs. sint (Duration e)) \<and>
          (\<Sum>e\<leftarrow>entries_of p logs. sint (Duration e)) < 2 ^ 63 \<longrightarrow>
            (\<exists>avg. avgTime stats = Some avg \<and>
                   sint (minTime stats) \<le> sint avg \<and> sint avg \<le> sint (maxTime stats)))"
proof -
  let ?es = "entries_of p logs"
  have ne: "?es \<noteq> []" and st: "stats = perfStats_of ?es"
    using assms(2) by (simp_all add: perf_loop_stats [OF assms(1)] split: if_splits)
  have len: "length ?es < 2 ^ 63"
    using assms(1) length_entries_of_le [of p logs] by (simp add: is_slice_def)
  have "sint (count stats) = int (length ?es)"
    by (simp add: st perfStats_of_def sint_of_nat_slice [OF len])
  moreover have "0 < length ?es" using ne by simp
  ultimately have cnt: "1 \<le> sint (count stats)" by linarith
  have err: "0 \<le> sint (errors stats)" "sint (errors stats) \<le> sint (count stats)"
    using errors_perfStats_of [OF len] by (simp_all add: st)
  have avg: "\<exists>avg. avgTime stats = Some avg \<and>
                 sint (minTime stats) \<le> sint avg \<and> sint avg \<le> sint (maxTime stats)"
    if "- (2 ^ 63) \<le> (\<Sum>e\<leftarrow>?es. sint (Duration e))"
      and "(\<Sum>e\<leftarrow>?es. sint (Duration e)) < 2 ^ 63"
    using avgTime_perfStats_of [OF ne len that] by (simp add: st)
  from cnt err avg show ?thesis by blast
qed

theorem perf_stats_invariant_witness:
  "is_slice sample_logs \<and>
   AnalyzePerformance_loop sample_logs ''/api/users'' = Some users_stats \<and>
   (\<Sum>e\<leftarrow>entries_of ''/api/users'' sample_logs. sint (Duration e)) = 400 \<and>
   1 \<le> sint (count users_stats) \<and> 0 \<le> sint (errors users_stats) \<and>
   sint (errors users_stats) \<le> sint (count users_stats) \<and>
   (\<exists>avg. avgTime users_stats = Some avg \<and>
          sint (minTime users_stats) \<le> sint avg \<and> sint avg \<le> sint (maxTime users_stats)) \<and>
   is_slice overflow_logs \<and>
   AnalyzePerformance_loop overflow_logs ''/p'' = Some overflow_stats \<and>
   1 \<le> sint (count overflow_stats) \<and> 0 \<le> sint (errors overflow_stats) \<and>
   sint (errors overflow_stats) \<le> sint (count overflow_stats)"
proof -
  have h1: "is_slice sample_logs" by (simp add: is_slice_def sample_logs_def)
  have h2: "AnalyzePerformance_loop sample_logs ''/api/users'' = Some users_stats"
    by (simp add: sample_logs_def AnalyzePerformance_loop_def perf_body_def perf_update_def
        index_or_def zeroPerfStats_def users_stats_def)
  have h3: "(\<Sum>e\<leftarrow>entries_of ''/api/users'' sample_logs. sint (Duration e)) = 400"
    by (simp add: sample_logs_def entries_of_def)
  have h4: "- (2 ^ 63) \<le> (\<Sum>e\<leftarrow>entries_of ''/api/users'' sample_logs. sint (Duration e))"
    and h5: "(\<Sum>e\<leftarrow>entries_of ''/api/users'' sample_logs. sint (Duration e)) < 2 ^ 63"
    by (simp_all add: h3)
  have g1: "is_slice overflow_logs" by (simp add: is_slice_def overflow_logs_def)
  have g2: "AnalyzePerformance_loop overflow_logs ''/p'' = Some overflow_stats"
    by (simp add: overflow_logs_def overflow_entry_def overflow_stats_def
        AnalyzePerformance_loop_def perf_body_def perf_update_def index_or_def zeroPerfStats_def)
  from perf_stats_invariant [OF h1 h2] perf_stats_invariant [OF g1 g2] h1 h2 h3 h4 h5 g1 g2
  show ?thesis by blast
qed

text \<open>
  Claim C2 as stated fails: the total is an \<open>int64\<close> and wraps around. For two entries of
  the path \<open>/p\<close> with duration \<open>2 ^ 62\<close> each, the loop stores the total \<open>- 2 ^ 63\<close>, the
  average is \<open>- 2 ^ 62\<close>, and the minimum \<open>2 ^ 62\<close> is above it.
\<close>

theorem perf_avg_overflow_counterexample:
  "is_slice overflow_logs \<and>
   AnalyzePerformance_loop overflow_logs ''/p'' = Some overflow_stats \<and>
   avgTime overflow_stats = Some (- 4611686018427387904) \<and>
   sint (minTime overflow_stats) = 4611686018427387904 \<and>
   \<not> sint (minTime overflow_stats) \<le> sint (- 4611686018427387904 :: int64)"
  by (simp add: overflow_logs_def overflow_entry_def overflow_stats_def is_slice_def
      AnalyzePerformance_loop_def perf_body_def perf_update_def index_or_def zeroPerfStats_def
      avgTime_def div_int64_def signed_divide_int_def)

text \<open>
  Claim C3. For every batch (a Go slice) and every path present in the statistics computed
  by \<open>AnalyzePerformance\<close>, the duration of every input entry of that path lies between the
  computed \<open>minTime\<close> and \<open>maxTime\<close>, inclusive, in the signed order of \<open>int64\<close>.
\<close>

theorem perf_min_max_bounds:
  assumes "is_slice logs" and "AnalyzePerformance_loop logs p = Some stats"
    and "e \<in> set logs" and "Path e = p"
  shows "sint (minTime stats) \<le> sint (Duration e) \<and> sint (Duration e) \<le> sint (maxTime stats)"
proof -
  have st: "stats = perfStats_of (entries_of p logs)"
    using assms(2) by (simp add: perf_loop_stats [OF assms(1)] split: if_splits)
  have "e \<in> set (entries_of p logs)" using assms(3,4) by (simp add: entries_of_def)
  then show ?thesis using perfStats_of_bounds [of e "entries_of p logs"] by (simp add: st)
qed

theorem perf_min_max_bounds_witness:
  "is_slice sample_logs \<and>
   AnalyzePerformance_loop sample_logs ''/api/users'' = Some users_stats \<and>
   sample_logs ! 1 \<in> set sample_logs \<and> Path (sample_logs ! 1) = ''/api/users'' \<and>
   sint (minTime users_stats) \<le> sint (Duration (sample_logs ! 1)) \<and>
   sint (Duration (sample_logs ! 1)) \<le> sint (maxTime users_stats)"
proof -
  have h1: "is_slice sample_logs" by (simp add: is_slice_def sample_logs_def)
  have h2: "AnalyzePerformance_loop sample_logs ''/api/users'' = Some users_stats"
    by (simp add: sample_logs_def AnalyzePerformance_loop_def perf_body_def perf_update_def
        index_or_def zeroPerfStats_def users_stats_def)
  have h3: "sample_logs ! 1 \<in> set sample_logs" by (simp add: sample_logs_def)
  have h4: "Path (sample_logs ! 1) = ''/api/users''" by (simp add: sample_logs_def)
  from perf_min_max_bounds [OF h1 h2 h3 h4] h1 h2 h3 h4 show ?thesis by blast
qed

section \<open>Facts about the string functions\<close>

lemma ReplaceAll_single: "ReplaceAll s [c] [] = filter (\<lambda>x. x \<noteq> c) s"
  by (induction s) auto

lemma ReplaceAll_absent:
  "x \<in> set old \<Longrightarrow> x \<notin> set s \<Longrightarrow> ReplaceAll s old new = s"
proof (induction s)
  case Nil
  show ?case by simp
next
  case (Cons c s)
  have "take (length old) (c # s) \<noteq> old"
  proof
    assume "take (length old) (c # s) = old"
    then have "set old \<subseteq> set (c # s)" by (metis set_take_subset)
    with Cons.prems show False by auto
  qed
  with Cons show ?case by simp
qed

lemma Index_single:
  "Index s [x] = (if x \<in> set s then int (length (takeWhile (\<lambda>y. y \<noteq> x) s)) else - 1)"
  by (induction s) (auto simp: Let_def)

lemma length_takeWhile_neq_less:
  "x \<in> set ys \<Longrightarrow> length (takeWhile (\<lambda>y. y \<noteq> x) ys) < length ys"
  by (induction ys) auto

lemma takeWhile_neq_append:
  "takeWhile (\<lambda>y. y \<noteq> x) (xs @ ys) =
     (if x \<in> set xs then takeWhile (\<lambda>y. y \<noteq> x) xs else xs @ takeWhile (\<lambda>y. y \<noteq> x) ys)"
  by (induction xs) auto

lemma dropWhile_neq_append:
  "dropWhile (\<lambda>y. y \<noteq> x) (xs @ ys) =
     (if x \<in> set xs then dropWhile (\<lambda>y. y \<noteq> x) xs @ ys else dropWhile (\<lambda>y. y \<noteq> x) ys)"
  by (induction xs) auto

lemma LastIndex_single:
  "LastIndex s [x] =
     (if x \<in> set s then int (length s) - 1 - int (length (takeWhile (\<lambda>y. y \<noteq> x) (rev s)))
      else - 1)"
proof (induction s)
  case Nil
  show ?case by simp
next
  case (Cons c s)
  show ?case
  proof (cases "x \<in> set s")
    case True
    then have "takeWhile (\<lambda>y. y \<noteq> x) (rev s @ [c]) = takeWhile (\<lambda>y. y \<noteq> x) (rev s)"
      by (simp add: takeWhile_neq_append)
    moreover have "length (takeWhile (\<lambda>y. y \<noteq> x) (rev s)) < length s"
      using True length_takeWhile_neq_less [of x "rev s"] by simp
    ultimately show ?thesis using True Cons by (simp add: Let_def)
  next
    case False
    then have "takeWhile (\<lambda>y. y \<noteq> x) (rev s @ [c]) = rev s @ takeWhile (\<lambda>y. y \<noteq> x) [c]"
      by (simp add: takeWhile_neq_append)
    then show ?thesis using False Cons by (auto simp add: Let_def)
  qed
qed

lemma rev_dropWhile_rev:
  "rev (dropWhile P (rev xs)) = take (length xs - length (takeWhile P (rev xs))) xs"
  by (simp add: dropWhile_eq_drop rev_drop)

lemma cleanJSONResponse_refines: "cleanJSONResponse s = Some (clean_spec s)"
proof -
  let ?ob = "CHR ''{''" and ?cb = "CHR ''}''"
  define c where "c = strip_backticks s"
  have nb: "CHR ''`'' \<notin> set c" by (simp add: c_def strip_backticks_def)
  have r1: "ReplaceAll s ''`'' '''' = c"
    by (simp add: ReplaceAll_single c_def strip_backticks_def)
  have r2: "ReplaceAll c ''```json'' '''' = c"
    by (rule ReplaceAll_absent [of "CHR ''`''"]) (simp_all add: nb)
  have r3: "ReplaceAll c ''```'' '''' = c"
    by (rule ReplaceAll_absent [of "CHR ''`''"]) (simp_all add: nb)
  define pre where "pre = takeWhile (\<lambda>x. x \<noteq> ?ob) c"
  define aft where "aft = dropWhile (\<lambda>x. x \<noteq> ?ob) c"
  have c: "c = pre @ aft" by (simp add: pre_def aft_def)
  show ?thesis
  proof (cases "?ob \<in> set c")
    case False
    then have "aft = []" by (auto simp add: aft_def)
    with False show ?thesis
      by (simp add: cleanJSONResponse_def clean_spec_def r1 r2 r3 Index_single
          flip: c_def aft_def)
  next
    case ob: True
    then have "aft \<noteq> []" by (simp add: aft_def)
    moreover from this have "hd aft = ?ob"
      using hd_dropWhile [of "\<lambda>x. x \<noteq> ?ob" c] by (simp add: aft_def)
    ultimately obtain post where aft: "aft = ?ob # post" by (cases aft) auto
    have start: "Index c ''{'' = int (length pre)"
      using ob by (simp add: Index_single pre_def)
    show ?thesis
    proof (cases "?cb \<in> set post")
      case True
      define t where "t = length (takeWhile (\<lambda>x. x \<noteq> ?cb) (rev post))"
      have t: "t < length post"
        unfolding t_def using True length_takeWhile_neq_less [of ?cb "rev post"] by simp
      have "takeWhile (\<lambda>x. x \<noteq> ?cb) (rev c) = takeWhile (\<lambda>x. x \<noteq> ?cb) (rev post)"
        using True by (simp add: c aft takeWhile_neq_append)
      then have en: "LastIndex c ''}'' = int (length pre) + int (length post) - int t"
        using True by (simp add: LastIndex_single c aft t_def)
      have "slice_str c (int (length pre)) (int (length pre) + int (length post) - int t + 1)
            = Some (?ob # take (length post - t) post)"
      proof -
        have "nat (int (length pre) + int (length post) - int t + 1 - int (length pre))
              = Suc (length post - t)"
          using t by linarith
        then show ?thesis using t by (simp add: slice_str_def c aft)
      qed
      moreover have "rev (dropWhile (\<lambda>x. x \<noteq> ?cb) (rev aft)) = ?ob # take (length post - t) post"
        using True by (simp add: aft dropWhile_neq_append rev_dropWhile_rev t_def)
      ultimately show ?thesis using True t ob
        by (simp add: cleanJSONResponse_def clean_spec_def r1 r2 r3 start en aft
            flip: c_def aft_def)
    next
      case False
      have "LastIndex c ''}'' \<le> int (length pre)"
      proof (cases "?cb \<in> set pre")
        case True
        have "takeWhile (\<lambda>x. x \<noteq> ?cb) (rev c)
              = rev post @ ?ob # takeWhile (\<lambda>x. x \<noteq> ?cb) (rev pre)"
          using False by (simp add: c aft takeWhile_neq_append)
        then show ?thesis using True by (simp add: LastIndex_single c aft)
      next
        case npre: False
        with False have "?cb \<notin> set c" by (simp add: c aft)
        then show ?thesis by (simp add: LastIndex_single)
      qed
      with False ob show ?thesis
        by (simp add: cleanJSONResponse_def clean_spec_def r1 r2 r3 start aft
            flip: c_def aft_def)
    qed
  qed
qed

lemma strip_backticks_id: "CHR ''`'' \<notin> set r \<Longrightarrow> strip_backticks r = r"
  by (simp add: strip_backticks_def filter_id_conv) auto

lemma set_strip_backticks: "set (strip_backticks s) = set s - {CHR ''`''}"
  by (auto simp: strip_backticks_def)

lemma clean_spec_braced:
  assumes "CHR ''`'' \<notin> set q" "q \<noteq> []" "last q = CHR ''}''"
  shows "clean_spec (CHR ''{'' # q) = CHR ''{'' # q"
proof -
  have sb: "strip_backticks (CHR ''{'' # q) = CHR ''{'' # q"
    using assms(1) by (simp add: strip_backticks_id)
  have mem: "CHR ''}'' \<in> set q" using assms(2,3) last_in_set by metis
  obtain q' where q: "q = q' @ [CHR ''}'']"
    using assms(2,3) by (metis append_butlast_last_id)
  have "dropWhile (\<lambda>c. c \<noteq> CHR ''}'') (rev (CHR ''{'' # q)) = rev (CHR ''{'' # q)"
    by (simp add: q)
  then show ?thesis using mem by (simp add: clean_spec_def sb)
qed

lemma clean_spec_no_backtick: "CHR ''`'' \<notin> set (clean_spec s)"
proof -
  have "set (rev (dropWhile P (rev (dropWhile Q xs)))) \<subseteq> set xs" for P Q and xs :: string
    by (metis set_rev set_dropWhileD subsetI)
  from this [of "\<lambda>c. c \<noteq> CHR ''}''" "\<lambda>c. c \<noteq> CHR ''{''" "strip_backticks s"]
  have "set (clean_spec s) \<subseteq> set (strip_backticks s)"
    by (simp add: clean_spec_def Let_def)
  then show ?thesis by (auto simp: set_strip_backticks)
qed

lemma clean_spec_idem: "clean_spec (clean_spec s) = clean_spec s"
proof -
  let ?ob = "CHR ''{''" and ?cb = "CHR ''}''"
  define c where "c = strip_backticks s"
  define aft where "aft = dropWhile (\<lambda>x. x \<noteq> ?ob) c"
  have nb: "CHR ''`'' \<notin> set c" by (simp add: c_def set_strip_backticks)
  have aft_nil: "(aft = []) = (?ob \<notin> set c)" by (auto simp: aft_def)
  show ?thesis
  proof (cases "aft \<noteq> [] \<and> ?cb \<in> set (tl aft)")
    case False
    then have r: "clean_spec s = c"
      by (auto simp add: clean_spec_def aft_nil simp flip: c_def aft_def)
    have "clean_spec c = c"
      using False by (auto simp add: clean_spec_def strip_backticks_id [OF nb] aft_nil simp flip: aft_def)
    then show ?thesis by (simp add: r)
  next
    case True
    then have "hd aft = ?ob"
      using hd_dropWhile [of "\<lambda>x. x \<noteq> ?ob" c] by (simp add: aft_def)
    with True obtain post where aft: "aft = ?ob # post" by (cases aft) auto
    define q where "q = rev (dropWhile (\<lambda>x. x \<noteq> ?cb) (rev post))"
    have mem: "?cb \<in> set post" using True by (simp add: aft)
    have obc: "?ob \<in> set c" using True aft_nil by simp
    have r: "clean_spec s = ?ob # q"
      using True mem obc by (simp add: clean_spec_def aft aft_nil dropWhile_neq_append q_def flip: c_def aft_def)
    have dne: "dropWhile (\<lambda>x. x \<noteq> ?cb) (rev post) \<noteq> []" using mem by simp
    then have "hd (dropWhile (\<lambda>x. x \<noteq> ?cb) (rev post)) = ?cb"
      using hd_dropWhile [of "\<lambda>x. x \<noteq> ?cb" "rev post"] by simp
    with dne have q: "q \<noteq> []" "last q = ?cb" by (simp_all add: q_def last_rev)
    have "set q \<subseteq> set c"
    proof -
      have "set q \<subseteq> set post" unfolding q_def by (metis set_rev set_dropWhileD subsetI)
      moreover have "set aft \<subseteq> set c" unfolding aft_def by (metis set_dropWhileD subsetI)
      ultimately show ?thesis by (auto simp: aft)
    qed
    with nb have "CHR ''`'' \<notin> set q" by auto
    from clean_spec_braced [OF this q] show ?thesis by (simp add: r)
  qed
qed

lemma clean_spec_shape:
  "clean_spec s = strip_backticks s \<or>
   (clean_spec s \<noteq> [] \<and> hd (clean_spec s) = CHR ''{'' \<and> last (clean_spec s) = CHR ''}'')"
proof -
  let ?ob = "CHR ''{''" and ?cb = "CHR ''}''"
  define c where "c = strip_backticks s"
  define aft where "aft = dropWhile (\<lambda>x. x \<noteq> ?ob) c"
  have aft_nil: "(aft = []) = (?ob \<notin> set c)" by (auto simp: aft_def)
  show ?thesis
  proof (cases "aft \<noteq> [] \<and> ?cb \<in> set (tl aft)")
    case False
    then have "clean_spec s = c"
      by (auto simp add: clean_spec_def aft_nil simp flip: c_def aft_def)
    then show ?thesis by (simp add: c_def)
  next
    case True
    then have "hd aft = ?ob"
      using hd_dropWhile [of "\<lambda>x. x \<noteq> ?ob" c] by (simp add: aft_def)
    with True obtain post where aft: "aft = ?ob # post" by (cases aft) auto
    define q where "q = rev (dropWhile (\<lambda>x. x \<noteq> ?cb) (rev post))"
    have mem: "?cb \<in> set post" using True by (simp add: aft)
    have obc: "?ob \<in> set c" using True aft_nil by simp
    have r: "clean_spec s = ?ob # q"
      using True mem obc
      by (simp add: clean_spec_def aft aft_nil dropWhile_neq_append q_def flip: c_def aft_def)
    have dne: "dropWhile (\<lambda>x. x \<noteq> ?cb) (rev post) \<noteq> []" using mem by simp
    then have "hd (dropWhile (\<lambda>x. x \<noteq> ?cb) (rev post)) = ?cb"
      using hd_dropWhile [of "\<lambda>x. x \<noteq> ?cb" "rev post"] by simp
    with dne have "q \<noteq> []" "last q = ?cb" by (simp_all add: q_def last_rev)
    then show ?thesis by (simp add: r)
  qed
qed

lemma Index_absent: "x \<in> set substr \<Longrightarrow> x \<notin> set s \<Longrightarrow> Index s substr = - 1"
proof (induction s)
  case Nil
  then show ?case by auto
next
  case (Cons c s)
  have "take (length substr) (c # s) \<noteq> substr"
  proof
    assume "take (length substr) (c # s) = substr"
    then have "set substr \<subseteq> set (c # s)" by (metis set_take_subset)
    with Cons.prems show False by auto
  qed
  with Cons show ?case by simp
qed

section \<open>The response normalizer\<close>

text \<open>
  Claim C4. For every input string, \<open>cleanJSONResponse\<close> returns (it does not panic) the
  text described by \<open>clean_spec\<close>: the input with every backtick removed, in which neither
  \<open>```json\<close> nor \<open>```\<close> occurs, cut down to the inclusive substring from its first \<open>{\<close> to
  its last \<open>}\<close> if it has a \<open>{\<close> and a \<open>}\<close> after the first \<open>{\<close>, and whole otherwise. In
  particular the fenced input \<open>```json\n{"a":1}\n```\<close> normalizes to \<open>{"a":1}\<close>, and
  \<open>no json here\<close> is returned unchanged.
\<close>

theorem cleanJSONResponse_spec:
  "cleanJSONResponse s = Some (clean_spec s) \<and>
   CHR ''`'' \<notin> set (strip_backticks s) \<and>
   Index (strip_backticks s) ''```json'' = - 1 \<and>
   Index (strip_backticks s) ''```'' = - 1 \<and>
   cleanJSONResponse (''```json'' @ [CHR 0x0A] @ ''{'' @ [CHR 0x22] @ ''a'' @ [CHR 0x22] @
      '':1}'' @ [CHR 0x0A] @ ''```'') = Some (''{'' @ [CHR 0x22] @ ''a'' @ [CHR 0x22] @ '':1}'') \<and>
   cleanJSONResponse ''no json here'' = Some ''no json here''"
proof -
  have nb: "CHR ''`'' \<notin> set (strip_backticks s)" by (simp add: set_strip_backticks)
  have i1: "Index (strip_backticks s) ''```json'' = - 1"
    by (rule Index_absent [of "CHR ''`''"]) (simp_all add: nb)
  have i2: "Index (strip_backticks s) ''```'' = - 1"
    by (rule Index_absent [of "CHR ''`''"]) (simp_all add: nb)
  have e1: "cleanJSONResponse (''```json'' @ [CHR 0x0A] @ ''{'' @ [CHR 0x22] @ ''a'' @
      [CHR 0x22] @ '':1}'' @ [CHR 0x0A] @ ''```'')
      = Some (''{'' @ [CHR 0x22] @ ''a'' @ [CHR 0x22] @ '':1}'')"
    by (simp add: cleanJSONResponse_def slice_str_def)
  have e2: "cleanJSONResponse ''no json here'' = Some ''no json here''"
    by (simp add: cleanJSONResponse_def slice_str_def)
  from cleanJSONResponse_refines nb i1 i2 e1 e2 show ?thesis by blast
qed

text \<open>
  Claim C9. \<open>cleanJSONResponse\<close> is idempotent: for every input it returns a text, and
  applying the function to that text returns it unchanged. The text contains no backtick,
  and it is either the whole cleaned input or starts with \<open>{\<close> and ends with \<open>}\<close>.
\<close>

theorem cleanJSONResponse_idempotent:
  "\<exists>r. cleanJSONResponse s = Some r \<and> cleanJSONResponse r = Some r \<and> CHR ''`'' \<notin> set r \<and>
       (r = strip_backticks s \<or> (r \<noteq> [] \<and> hd r = CHR ''{'' \<and> last r = CHR ''}''))"
  using clean_spec_idem [of s] clean_spec_no_backtick [of s] clean_spec_shape [of s]
  by (simp add: cleanJSONResponse_refines)

section \<open>The notable events of the log-analysis prompt\<close>

lemma logs_loop_summary:
  "snd (logs_loop st logs) = snd st @ concat (map event_line (filter important logs))"
  by (induction logs arbitrary: st) (simp_all add: logs_body_def Let_def)

text \<open>
  Claim C5. The summary that the loop of \<open>AnalyzeLogs\<close> builds is the header followed by
  one line for each entry, in input order, that has status at least 400, or level
  \<open>error\<close>, or level \<open>warning\<close>, or a duration above 1000, and by no other line; a line
  renders timestamp, level, path, duration and status in this order. For the sample batch
  the section is the line of \<open>/api/slow\<close> alone.
\<close>

theorem notable_events_section:
  "snd (AnalyzeLogs_loop logs) =
     ''Log Summary:'' @ [CHR 0x0A, CHR 0x0A] @
     concat (map (\<lambda>e. ''- '' @ Timestamp e @ '' ['' @ Level e @ ''] '' @ Path e @
                      '' (Duration: '' @ FormatInt (sint (Duration e)) @ ''ms, Status: '' @
                      FormatInt (sint (Status e)) @ '')'' @ [CHR 0x0A])
       (filter (\<lambda>e. 400 \<le> sint (Status e) \<or> Level e = ''error'' \<or> Level e = ''warning'' \<or>
                     1000 < sint (Duration e)) logs)) \<and>
   snd (AnalyzeLogs_loop sample_logs) =
     ''Log Summary:'' @ [CHR 0x0A, CHR 0x0A] @
     ''- T3 [info] /api/slow (Duration: 2000ms, Status: 500)'' @ [CHR 0x0A]"
proof -
  have "important = (\<lambda>e. 400 \<le> sint (Status e) \<or> Level e = ''error'' \<or> Level e = ''warning'' \<or>
                     1000 < sint (Duration e))"
    by (rule ext) (simp add: important_def word_sle_eq word_sless_alt)
  moreover have "event_line = (\<lambda>e. ''- '' @ Timestamp e @ '' ['' @ Level e @ ''] '' @ Path e @
                      '' (Duration: '' @ FormatInt (sint (Duration e)) @ ''ms, Status: '' @
                      FormatInt (sint (Status e)) @ '')'' @ [CHR 0x0A])"
    by (rule ext) (simp add: event_line_def FormatInt64_def)
  ultimately have "snd (AnalyzeLogs_loop logs) =
     ''Log Summary:'' @ [CHR 0x0A, CHR 0x0A] @
     concat (map (\<lambda>e. ''- '' @ Timestamp e @ '' ['' @ Level e @ ''] '' @ Path e @
                      '' (Duration: '' @ FormatInt (sint (Duration e)) @ ''ms, Status: '' @
                      FormatInt (sint (Status e)) @ '')'' @ [CHR 0x0A])
       (filter (\<lambda>e. 400 \<le> sint (Status e) \<or> Level e = ''error'' \<or> Level e = ''warning'' \<or>
                     1000 < sint (Duration e)) logs))"
    using logs_loop_summary [of "(Map.empty, ''Log Summary:'' @ [CHR 0x0A, CHR 0x0A])" logs]
    by (simp add: AnalyzeLogs_loop_def)
  moreover have "snd (AnalyzeLogs_loop sample_logs) =
     ''Log Summary:'' @ [CHR 0x0A, CHR 0x0A] @
     ''- T3 [info] /api/slow (Duration: 2000ms, Status: 500)'' @ [CHR 0x0A]"
    by (simp add: AnalyzeLogs_loop_def sample_logs_def logs_body_def Let_def important_def
        event_line_def FormatInt64_def FormatInt_def digits.simps digit_char_def)
  ultimately show ?thesis by (rule conjI)
qed

section \<open>The error rate of the prompts\<close>

lemma round_float64_1: "round_float64 1 = Finite 1"
  by (simp add: round_float64_def ilog2_def bit_length.simps round_half_even_def Let_def)

lemma round_float64_4: "round_float64 4 = Finite 4"
  by (simp add: round_float64_def ilog2_def bit_length.simps round_half_even_def Let_def)

lemma round_float64_quarter: "round_float64 (1 / 4) = Finite (1 / 4)"
  by (simp add: round_float64_def ilog2_def bit_length.simps round_half_even_def Let_def)

lemma round_float64_25: "round_float64 25 = Finite 25"
  by (simp add: round_float64_def ilog2_def bit_length.simps round_half_even_def Let_def)

lemma format_f1_25: "format_f1 (Finite 25) = ''25.0''"
  by (simp add: format_f1_def round_half_even_def Let_def digits.simps digit_char_def)

lemma errorRate_1_of_4:
  "count stats = 4 \<Longrightarrow> errors stats = 1 \<Longrightarrow> errorRate stats = Finite 25"
  by (simp add: errorRate_def float64_of_int_def round_float64_1 round_float64_4
      round_float64_quarter round_float64_25)

text \<open>
  Claim C8. For statistics with \<open>count = 4\<close> and \<open>errors = 1\<close> the error rate
  \<open>errors / count * 100\<close>, computed in \<open>float64\<close>, is 25 and \<open>%.1f\<close> renders it as \<open>25.0\<close>;
  this text stands in the line of the log-analysis prompt and in the block of the
  performance-analysis prompt, whatever the path and the other fields are.
\<close>

theorem error_rate_rendering:
  "format_f1 (errorRate \<lparr>count = 4, totalTime = t, errors = 1\<rparr>) = ''25.0'' \<and>
   format_f1 (errorRate \<lparr>count = 4, totalTime = t, errors = 1, maxTime = hi, minTime = lo\<rparr>)
     = ''25.0'' \<and>
   logs_stats_line path \<lparr>count = 4, totalTime = t, errors = 1\<rparr> =
     Some (''- '' @ path @ '': 4 requests, avg time '' @
           FormatInt64 (word_of_int (sint t sdiv 4)) @ ''ms, error rate 25.0%'' @ [CHR 0x0A]) \<and>
   perf_stats_block path \<lparr>count = 4, totalTime = t, errors = 1, maxTime = hi, minTime = lo\<rparr> =
     Some (''Endpoint: '' @ path @ [CHR 0x0A] @
           ''- Requests: 4'' @ [CHR 0x0A] @
           ''- Avg Time: '' @ FormatInt64 (word_of_int (sint t sdiv 4)) @ ''ms'' @ [CHR 0x0A] @
           ''- Min Time: '' @ FormatInt64 lo @ ''ms'' @ [CHR 0x0A] @
           ''- Max Time: '' @ FormatInt64 hi @ ''ms'' @ [CHR 0x0A] @
           ''- Error Rate: 25.0%'' @ [CHR 0x0A, CHR 0x0A])"
proof -
  have four: "FormatInt64 4 = ''4''"
    by (simp add: FormatInt64_def FormatInt_def digits.simps digit_char_def)
  show ?thesis
    by (simp add: logs_stats_line_def perf_stats_block_def avgTime_def div_int64_def errorRate_1_of_4
        format_f1_25 four)
qed

section \<open>The CSV writer never fails and writes the rows\<close>

lemma emit_ok [simp]: "b_err (snd (emit b s)) = b_err b"
  by (simp add: emit_def)

lemma andThen_emit:
  "andThen (emit b s) f = f (b\<lparr>b_buf := b_buf b @ s\<rparr>)"
  by (simp add: andThen_def emit_def)

lemma emit_emit:
  "emit (b\<lparr>b_buf := b_buf b @ s\<rparr>) t = emit b (s @ t)"
  by (simp add: emit_def)

lemma WriteString_emit: "b_err b = None \<Longrightarrow> bufio_WriteString b s = emit b s"
  by (simp add: bufio_WriteString_def emit_def)

lemma WriteByte_emit: "b_err b = None \<Longrightarrow> bufio_WriteByte b c = emit b [c]"
  by (simp add: bufio_WriteByte_def emit_def)

lemma IndexAny_takeWhile:
  "(let i = IndexAny s chars in if i < 0 then int (length s) else i)
     = int (length (takeWhile (\<lambda>c. c \<notin> set chars) s))"
  by (induction s) (auto simp: Let_def)

lemma csv_escape_append: "csv_escape (xs @ ys) = csv_escape xs @ csv_escape ys"
  by (simp add: csv_escape_def)

lemma csv_escape_plain: "CHR 0x22 \<notin> set xs \<Longrightarrow> csv_escape xs = xs"
  by (induction xs) (auto simp: csv_escape_def)

lemma encode_special_emit:
  "b_err b = None \<Longrightarrow> c \<in> set [CHR 0x22, CHR 0x0D, CHR 0x0A] \<Longrightarrow>
     encode_special b c = emit b (csv_escape [c])"
  by (auto simp: encode_special_def UseCRLF_def WriteString_emit WriteByte_emit csv_escape_def)

lemma quoted_loop_emit: "b_err b = None \<Longrightarrow> quoted_loop b field = emit b (csv_escape field)"
proof (induction "length field" arbitrary: b field rule: less_induct)
  case less
  let ?sp = "[CHR 0x22, CHR 0x0D, CHR 0x0A]"
  let ?P = "\<lambda>c. c \<notin> set ?sp"
  show ?case
  proof (cases "field = []")
    case True
    then show ?thesis by (simp add: quoted_loop.simps emit_def csv_escape_def)
  next
    case False
    define pre where "pre = takeWhile ?P field"
    define rest where "rest = dropWhile ?P field"
    have field: "field = pre @ rest" by (simp add: pre_def rest_def)
    have i: "(let i = IndexAny field ?sp in if i < 0 then int (length field) else i) = int (length pre)"
      unfolding pre_def by (rule IndexAny_takeWhile)
    have tk: "take (length pre) field = pre" and dr: "drop (length pre) field = rest"
      by (simp_all add: field)
    have "CHR 0x22 \<notin> set pre"
      unfolding pre_def by (auto dest: set_takeWhileD)
    then have pre: "csv_escape pre = pre" by (rule csv_escape_plain)
    have unfold: "quoted_loop b field =
        andThen (bufio_WriteString b pre)
          (\<lambda>b. if rest \<noteq> [] then andThen (encode_special b (hd rest)) (\<lambda>b. quoted_loop b (tl rest))
               else (None, b))"
    proof -
      have e: "(length field \<le> length pre) = (rest = [])" by (simp add: field)
      show ?thesis
        using False by (subst quoted_loop.simps) (simp only: i, simp add: tk dr e Let_def cong: if_cong)
    qed
    show ?thesis
    proof (cases rest)
      case Nil
      have "csv_escape field = pre" using field Nil pre by simp
      then show ?thesis
        using less.prems Nil by (simp add: unfold WriteString_emit andThen_emit) (simp add: emit_def)
    next
      case (Cons c cs)
      have "rest \<noteq> []" using Cons by simp
      then have "\<not> ?P (hd rest)" unfolding rest_def by (rule hd_dropWhile)
      then have c: "c \<in> set ?sp" by (simp add: Cons)
      have "length cs < length field" by (simp add: field Cons)
      from less.hyps [OF this] have IH: "b_err b' = None \<Longrightarrow> quoted_loop b' cs = emit b' (csv_escape cs)" for b'
        by simp
      have "csv_escape field = pre @ csv_escape [c] @ csv_escape cs"
        using csv_escape_append [of pre "c # cs"] csv_escape_append [of "[c]" cs]
        by (simp add: field Cons pre)
      then show ?thesis
        using less.prems c
        by (simp add: unfold Cons WriteString_emit andThen_emit encode_special_emit IH emit_emit)
    qed
  qed
qed

lemma write_field_emit:
  "b_err b = None \<Longrightarrow>
     (if \<not> fieldNeedsQuotes field then andThen (bufio_WriteString b field) f
      else andThen (bufio_WriteByte b (CHR 0x22))
             (\<lambda>b. andThen (quoted_loop b field) (\<lambda>b. andThen (bufio_WriteByte b (CHR 0x22)) f)))
     = f (b\<lparr>b_buf := b_buf b @ csv_field field\<rparr>)"
  by (simp add: WriteString_emit WriteByte_emit andThen_emit quoted_loop_emit csv_field_def)

lemma join_comma_Cons: "fs \<noteq> [] \<Longrightarrow> join_comma (f # fs) = f @ '','' @ join_comma fs"
  by (cases fs) simp_all

lemma write_fields_emit:
  "b_err b = None \<Longrightarrow> fs0 \<noteq> [] \<Longrightarrow>
     write_fields n b fs0 = emit b (sep n @ join_comma (map csv_field fs0))"
proof (induction fs0 arbitrary: n b)
  case Nil
  then show ?case by simp
next
  case (Cons field fs0)
  have lead: "(if 0 < n then bufio_WriteByte b Comma else (None, b)) = emit b (sep n)"
    using Cons.prems(1) by (simp add: WriteByte_emit sep_def Comma_def emit_def)
  show ?case
  proof (cases fs0)
    case Nil
    then show ?thesis
      using Cons.prems(1)
      by (simp add: lead andThen_emit write_field_emit [simplified]) (simp add: emit_def)
  next
    case (Cons g gs)
    then have ne: "fs0 \<noteq> []" by simp
    with Cons.IH [of _ "Suc n"] have IH: "b_err b' = None \<Longrightarrow>
        write_fields (Suc n) b' fs0 = emit b' ('','' @ join_comma (map csv_field fs0))" for b'
      by (simp add: sep_def)
    have "join_comma (map csv_field (field # fs0))
          = csv_field field @ '','' @ join_comma (map csv_field fs0)"
      using ne by (simp add: join_comma_Cons)
    then show ?thesis
      using Cons.prems(1)
      by (simp add: lead andThen_emit write_field_emit [simplified] IH emit_emit)
  qed
qed


lemma validDelim_Comma: "validDelim Comma"
  by (simp add: validDelim_def Comma_def)

lemma csv_Write_emit:
  assumes "b_err w = None" "fs0 \<noteq> []"
  shows "csv_Write w fs0 = emit w (csv_line fs0)"
  using assms
  by (simp add: csv_Write_def validDelim_Comma write_fields_emit andThen_emit UseCRLF_def
      WriteByte_emit emit_emit sep_def csv_line_def)

lemma row_ne: "row entry \<noteq> []"
  by (simp add: row_def)

lemma rows_loop_emit:
  "b_err w = None \<Longrightarrow>
     rows_loop w logs = Inr (w\<lparr>b_buf := b_buf w @ concat (map (\<lambda>e. csv_line (row e)) logs)\<rparr>)"
proof (induction logs arbitrary: w)
  case Nil
  then show ?case by simp
next
  case (Cons entry logs)
  then show ?case
    by (simp add: csv_Write_emit row_ne emit_def)
qed

lemma ConvertToCSV_closed_form:
  "ConvertToCSV logs = Inr (csv_line header @ concat (map (\<lambda>e. csv_line (row e)) logs))"
proof -
  have h: "header \<noteq> []" by (simp add: header_def)
  have ne: "csv_line header \<noteq> []" by (simp add: csv_line_def)
  have w: "csv_Write (bufio_NewWriter []) header = emit (bufio_NewWriter []) (csv_line header)"
    by (rule csv_Write_emit) (simp_all add: bufio_NewWriter_def h)
  let ?w1 = "(bufio_NewWriter [])\<lparr>b_buf := b_buf (bufio_NewWriter []) @ csv_line header\<rparr>"
  let ?out = "csv_line header @ concat (map (\<lambda>e. csv_line (row e)) logs)"
  have r: "rows_loop ?w1 logs = Inr (?w1\<lparr>b_buf := b_buf ?w1 @ concat (map (\<lambda>e. csv_line (row e)) logs)\<rparr>)"
    by (rule rows_loop_emit) (simp add: bufio_NewWriter_def)
  have f: "csv_Flush (?w1\<lparr>b_buf := b_buf ?w1 @ concat (map (\<lambda>e. csv_line (row e)) logs)\<rparr>)
           = \<lparr>b_err = None, b_buf = [], b_wr = ?out\<rparr>"
    using ne by (simp add: csv_Flush_def bufio_Flush_def Buffer_Write_def bufio_NewWriter_def)
  show ?thesis
    unfolding ConvertToCSV_def Let_def w emit_def
    by (simp only: prod.case option.case r sum.case f) (simp add: csv_Error_def)
qed

lemma csv_field_quoted:
  "CHR '','' \<in> set f \<or> CHR 0x22 \<in> set f \<or> CHR 0x0A \<in> set f \<Longrightarrow>
     csv_field f = [CHR 0x22] @ csv_escape f @ [CHR 0x22]"
  by (auto simp: csv_field_def fieldNeedsQuotes_def list_ex_iff Comma_def)

lemma csv_field_plain:
  "f \<noteq> [CHR 0x5C, CHR ''.''] \<Longrightarrow> \<not> first_rune_IsSpace f \<Longrightarrow> CHR '','' \<notin> set f \<Longrightarrow>
   CHR 0x22 \<notin> set f \<Longrightarrow> CHR 0x0D \<notin> set f \<Longrightarrow> CHR 0x0A \<notin> set f \<Longrightarrow> csv_field f = f"
  by (auto simp: csv_field_def fieldNeedsQuotes_def list_ex_iff Comma_def)

lemma csv_line_header:
  "csv_line header = ''timestamp,level,message,path,method,duration,status'' @ [CHR 0x0A]"
  by (simp add: csv_line_def header_def csv_field_def fieldNeedsQuotes_def Comma_def
      first_rune_IsSpace_def space_encodings_def)

text \<open>
  Claim C6. For every batch, \<open>ConvertToCSV\<close> returns the header row
  \<open>timestamp,level,message,path,method,duration,status\<close> followed by one row per entry, in
  input order, with the fields timestamp, level, message, path, method, duration, status,
  the last two as decimal integers, and without the metadata; for the empty batch it
  returns the header row alone. A field with a comma, a double quote or a line feed is
  written between double quotes with its double quotes doubled; a field without comma,
  quote, carriage return and line feed, that does not start with white space and is not
  \<open>\.\<close>, is written as it is.
\<close>

theorem ConvertToCSV_output:
  "ConvertToCSV logs =
     Inr (''timestamp,level,message,path,method,duration,status'' @ [CHR 0x0A] @
          concat (map (\<lambda>e. csv_line [Timestamp e, Level e, Message e, Path e, Method e,
                                      FormatInt (sint (Duration e)), FormatInt (sint (Status e))])
                   logs)) \<and>
   ConvertToCSV [] = Inr (''timestamp,level,message,path,method,duration,status'' @ [CHR 0x0A]) \<and>
   (CHR '','' \<in> set f \<or> CHR 0x22 \<in> set f \<or> CHR 0x0A \<in> set f \<longrightarrow>
      csv_field f = [CHR 0x22] @ csv_escape f @ [CHR 0x22]) \<and>
   (g \<noteq> [CHR 0x5C, CHR ''.''] \<and> \<not> first_rune_IsSpace g \<and> CHR '','' \<notin> set g \<and>
    CHR 0x22 \<notin> set g \<and> CHR 0x0D \<notin> set g \<and> CHR 0x0A \<notin> set g \<longrightarrow> csv_field g = g)"
proof -
  have "ConvertToCSV xs =
     Inr (''timestamp,level,message,path,method,duration,status'' @ [CHR 0x0A] @
          concat (map (\<lambda>e. csv_line [Timestamp e, Level e, Message e, Path e, Method e,
                                      FormatInt (sint (Duration e)), FormatInt (sint (Status e))])
                   xs))" for xs
    by (simp add: ConvertToCSV_closed_form csv_line_header row_def FormatInt64_def)
  from this [of logs] this [of "[]"] csv_field_quoted [of f] csv_field_plain [of g]
  show ?thesis by simp
qed

theorem ConvertToCSV_output_witness:
  "CHR '','' \<in> set ''m,with,commas'' \<and>
   csv_field ''m,with,commas'' = [CHR 0x22] @ ''m,with,commas'' @ [CHR 0x22] \<and>
   \<not> first_rune_IsSpace ''info'' \<and> csv_field ''info'' = ''info'' \<and>
   ConvertToCSV [csv_sample] =
     Inr (''timestamp,level,message,path,method,duration,status'' @ [CHR 0x0A] @
          ''T1,info,'' @ [CHR 0x22] @ ''m,with,commas'' @ [CHR 0x22] @ '',/p,GET,10,200'' @
          [CHR 0x0A])"
proof -
  have sp: "\<not> first_rune_IsSpace s" if "s \<noteq> []" "hd s \<in> set ''TinfoGE/p120'' " for s
    using that by (cases s) (auto simp add: first_rune_IsSpace_def space_encodings_def)
  have plain: "csv_field ''T1'' = ''T1''" "csv_field ''info'' = ''info''" "csv_field ''/p'' = ''/p''"
    "csv_field ''GET'' = ''GET''" "csv_field ''10'' = ''10''" "csv_field ''200'' = ''200''"
    using ConvertToCSV_output [of "[]" "[]" "''T1''"] ConvertToCSV_output [of "[]" "[]" "''info''"]
      ConvertToCSV_output [of "[]" "[]" "''/p''"] ConvertToCSV_output [of "[]" "[]" "''GET''"]
      ConvertToCSV_output [of "[]" "[]" "''10''"] ConvertToCSV_output [of "[]" "[]" "''200''"]
    by (simp_all add: sp)
  have q: "csv_field ''m,with,commas'' = [CHR 0x22] @ ''m,with,commas'' @ [CHR 0x22]"
    using ConvertToCSV_output [of "[]" "''m,with,commas''" "[]"] by (simp add: csv_escape_def)
  have n: "FormatInt 10 = ''10''" "FormatInt 200 = ''200''"
    by (simp_all add: FormatInt_def digits.simps digit_char_def)
  have line: "concat (map (\<lambda>e. csv_line [Timestamp e, Level e, Message e, Path e, Method e,
                 FormatInt (sint (Duration e)), FormatInt (sint (Status e))]) [csv_sample])
      = ''T1,info,'' @ [CHR 0x22] @ ''m,with,commas'' @ [CHR 0x22] @ '',/p,GET,10,200'' @ [CHR 0x0A]"
    by (simp add: csv_sample_def csv_line_def plain q n)
  have out: "ConvertToCSV [csv_sample] =
     Inr (''timestamp,level,message,path,method,duration,status'' @ [CHR 0x0A] @
          ''T1,info,'' @ [CHR 0x22] @ ''m,with,commas'' @ [CHR 0x22] @ '',/p,GET,10,200'' @
          [CHR 0x0A])"
    using ConvertToCSV_output [of "[csv_sample]" "[]" "[]", THEN conjunct1]
    by (simp only: line)
  have "\<not> first_rune_IsSpace ''info''" by (simp add: sp)
  with q plain(2) out show ?thesis by simp
qed

text \<open>
  Claim C10. \<open>ConvertToCSV\<close> returns a payload and no error for every batch, whatever
  the strings of the entries are: on a writer without a pending error a \<open>Write\<close> of any
  record returns no error and leaves none behind, and after \<open>Flush\<close> the writer reports
  none, so the three error branches are not taken.
\<close>

theorem ConvertToCSV_never_fails:
  "(\<exists>payload. ConvertToCSV logs = Inr payload) \<and>
   (b_err w = None \<longrightarrow>
      fst (csv_Write w fs) = None \<and> b_err (snd (csv_Write w fs)) = None \<and>
      csv_Error (csv_Flush w) = None)"
proof -
  have "fst (csv_Write w fs) = None \<and> b_err (snd (csv_Write w fs)) = None" if "b_err w = None"
  proof (cases "fs = []")
    case True
    with that show ?thesis
      by (simp add: csv_Write_def validDelim_Comma andThen_def UseCRLF_def WriteByte_emit emit_def)
  next
    case False
    with that show ?thesis by (simp add: csv_Write_emit emit_def)
  qed
  moreover have "csv_Error (csv_Flush w) = None" if "b_err w = None"
    using that
    by (simp add: csv_Error_def csv_Flush_def bufio_Flush_def Buffer_Write_def)
  ultimately show ?thesis by (simp add: ConvertToCSV_closed_form)
qed

theorem ConvertToCSV_never_fails_witness:
  "b_err (bufio_NewWriter []) = None \<and>
   fst (csv_Write (bufio_NewWriter []) header) = None \<and>
   b_err (snd (csv_Write (bufio_NewWriter []) header)) = None \<and>
   csv_Error (csv_Flush (bufio_NewWriter [])) = None \<and>
   (\<exists>payload. ConvertToCSV [csv_sample] = Inr payload)"
proof -
  have h: "b_err (bufio_NewWriter []) = None" by (simp add: bufio_NewWriter_def)
  from ConvertToCSV_never_fails [of "[csv_sample]" "bufio_NewWriter []" header] h
  show ?thesis by blast
qed

section \<open>The status check of the remote client\<close>

lemma canonical_header_keys:
  "CanonicalMIMEHeaderKey ''Content-Type'' = ''Content-Type''"
  "CanonicalMIMEHeaderKey ''x-goog-api-key'' = ''X-Goog-Api-Key''"
  by (simp_all add: CanonicalMIMEHeaderKey_def validHeaderFieldByte_def lower_letters_def
      upper_letters_def to_upper_def to_lower_def Let_def)

text \<open>
  Claim C7. When the request was sent and the response's body was read: if the status
  code is outside 200 to 299, \<open>callGeminiAPI\<close> fails with the error
  \<open>API error (status <code>): <body>\<close>, the body verbatim, and its result does not depend
  on the JSON decoder, so no text extraction takes place; with status 200 the result is
  that of decoding the body and extracting the text.
\<close>

theorem callGeminiAPI_status:
  assumes "Marshal e (reqBody prompt) = Ok jsonData"
    and "NewRequestWithContext e ''POST'' geminiEndpoint jsonData = Ok req"
    and "Do e (sent_request req apiKey) = Ok resp"
    and "Body resp = Ok body"
  shows "(sint (StatusCode resp) < 200 \<or> 299 < sint (StatusCode resp) \<longrightarrow>
            callGeminiAPI e apiKey prompt =
              Err (''API error (status '' @ FormatInt (sint (StatusCode resp)) @ ''): '' @ body) \<and>
            callGeminiAPI (e\<lparr>Unmarshal := u\<rparr>) apiKey prompt = callGeminiAPI e apiKey prompt) \<and>
         (StatusCode resp = 200 \<longrightarrow>
            callGeminiAPI e apiKey prompt =
              (case Unmarshal e body of
                 Failed err \<Rightarrow> Err (''error parsing response: '' @ err)
               | Ok result \<Rightarrow> extract_text body result))"
  using assms
  by (auto simp: callGeminiAPI_def sent_request_def Header_Set_def canonical_header_keys Let_def
      StatusOK_def FormatInt64_def)

theorem callGeminiAPI_status_witness:
  "callGeminiAPI (sample_env 429) ''key'' ''prompt'' = Err ''API error (status 429): quota exceeded'' \<and>
   callGeminiAPI ((sample_env 429)\<lparr>Unmarshal := (\<lambda>b. Ok [])\<rparr>) ''key'' ''prompt''
     = Err ''API error (status 429): quota exceeded'' \<and>
   callGeminiAPI (sample_env 200) ''key'' ''prompt'' = Err ''error parsing response: invalid character''"
proof -
  let ?req = "\<lparr>req_Method = ''POST'', req_URL = geminiEndpoint, req_Header = Map.empty,
               req_Body = ''{}''\<rparr>"
  have a: "Marshal (sample_env s) (reqBody ''prompt'') = Ok ''{}''"
    and b: "NewRequestWithContext (sample_env s) ''POST'' geminiEndpoint ''{}'' = Ok ?req"
    and c: "Do (sample_env s) (sent_request ?req ''key'')
            = Ok \<lparr>StatusCode = s, Body = Ok ''quota exceeded''\<rparr>"
    and d: "Body \<lparr>StatusCode = s, Body = Ok ''quota exceeded''\<rparr> = Ok ''quota exceeded''" for s
    by (simp_all add: sample_env_def)
  have n: "FormatInt 429 = ''429''" by (simp add: FormatInt_def digits.simps digit_char_def)
  have u: "Unmarshal (sample_env 200) ''quota exceeded'' = Failed ''invalid character''"
    by (simp add: sample_env_def)
  from callGeminiAPI_status [OF a b c d, of 429 "\<lambda>b. Ok []"]
    callGeminiAPI_status [OF a b c d, of 200]
  show ?thesis by (simp add: n u)
qed

end
